theory Spec2Isabelle
  imports Main "HOL-Library.AList" "HOL-Library.Multiset" "HOL-Library.Char_ord"
    "HOL-Library.List_Lexorder"
begin

section \<open>Values read from the data files\<close>

text \<open>
  \<^verbatim>\<open>fs.readJson\<close> yields an arbitrary JSON value. An object is the list of its
  properties in enumeration order; a number is kept as the text JavaScript prints for it,
  which is all the generator ever asks of a number.
\<close>

datatype json =
    JNull
  | JBool bool
  | JNum string
  | JStr string
  | JArr "json list"
  | JObj "(string \<times> json) list"

datatype error =
    EmptyDirError
  | ReadError string
  | ParseError string
  | TypeError
  | TemplateError
  | WriteError string
  | EnsureDirError
  | CopyError string

datatype log_line =
    Log string
  | Warn string
  | ErrorLog error

section \<open>JavaScript primitives used by the generator\<close>

fun join_comma :: "string list \<Rightarrow> string" where
  "join_comma [] = []"
| "join_comma [s] = s"
| "join_comma (s # t # ts) = s @ '','' @ join_comma (t # ts)"

text \<open>
  The conversion of a value to a string, as \<^verbatim>\<open>localeCompare\<close> does to its argument
  and a template literal to what it interpolates. An array is its elements joined by
  commas, \<^verbatim>\<open>null\<close> among them printing as nothing. An object that has a property
  of its own named \<^verbatim>\<open>toString\<close> cannot be converted (the value parsed from JSON is
  not callable, and \<^verbatim>\<open>valueOf\<close> gives the object back): a TypeError; any other
  object prints as \<^verbatim>\<open>[object Object]\<close>.
\<close>

fun ToString :: "json \<Rightarrow> error + string"
  and join_elements :: "json list \<Rightarrow> error + string list" where
  "ToString JNull = Inr ''null''"
| "ToString (JBool b) = Inr (if b then ''true'' else ''false'')"
| "ToString (JNum s) = Inr s"
| "ToString (JStr s) = Inr s"
| "ToString (JArr xs) =
     (case join_elements xs of
        Inl err \<Rightarrow> Inl err
      | Inr ss \<Rightarrow> Inr (join_comma ss))"
| "ToString (JObj kvs) =
     (if map_of kvs ''toString'' = None then Inr ''[object Object]'' else Inl TypeError)"
| "join_elements [] = Inr []"
| "join_elements (x # xs) =
     (case (if x = JNull then Inr [] else ToString x) of
        Inl err \<Rightarrow> Inl err
      | Inr s \<Rightarrow>
          (case join_elements xs of
             Inl err \<Rightarrow> Inl err
           | Inr ss \<Rightarrow> Inr (s # ss)))"

text \<open>A property read that found nothing is \<^verbatim>\<open>undefined\<close>, here \<open>None\<close>.\<close>

definition ToString_opt :: "json option \<Rightarrow> error + string" where
  "ToString_opt v = (case v of None \<Rightarrow> Inr ''undefined'' | Some j \<Rightarrow> ToString j)"

text \<open>
  \<^verbatim>\<open>v.headline\<close> and \<^verbatim>\<open>v.slug\<close>: reading a property of \<^verbatim>\<open>null\<close> throws a
  TypeError; a boolean, number, string or array has neither property.
\<close>

definition get_prop :: "json \<Rightarrow> string \<Rightarrow> error + json option" where
  "get_prop v k =
     (case v of
        JNull \<Rightarrow> Inl TypeError
      | JObj kvs \<Rightarrow> Inr (map_of kvs k)
      | _ \<Rightarrow> Inr None)"

function string_of_nat :: "nat \<Rightarrow> string" where
  "string_of_nat n =
     (if n < 10 then [char_of (48 + n)]
      else string_of_nat (n div 10) @ [char_of (48 + n mod 10)])"
  by pat_completeness auto
termination
  by (relation "measure id") auto

fun index_props :: "nat \<Rightarrow> json list \<Rightarrow> (string \<times> json) list" where
  "index_props i [] = []"
| "index_props i (x # xs) = (string_of_nat i, x) # index_props (Suc i) xs"

text \<open>
  The own enumerable properties that \<^verbatim>\<open>{...v}\<close> copies: those of an object, the
  indexed elements of an array or the indexed characters of a string, and none of
  \<^verbatim>\<open>null\<close>, a boolean or a number.
\<close>

definition own_props :: "json \<Rightarrow> (string \<times> json) list" where
  "own_props v =
     (case v of
        JObj kvs \<Rightarrow> kvs
      | JArr xs \<Rightarrow> index_props 0 xs
      | JStr s \<Rightarrow> index_props 0 (map (\<lambda>c. JStr [c]) s)
      | _ \<Rightarrow> [])"

definition endsWith :: "string \<Rightarrow> string \<Rightarrow> bool" where
  "endsWith s suf =
     (length suf \<le> length s \<and> drop (length s - length suf) s = suf)"

section \<open>Sorting by headline\<close>

text \<open>
  The comparison \<^verbatim>\<open>(a, b) => a.headline.localeCompare(b.headline)\<close>, with
  \<^verbatim>\<open>localeCompare\<close> of the runtime as the parameter \<open>lc\<close>. The call throws a
  TypeError unless \<^verbatim>\<open>a.headline\<close> is a string; the argument is converted to a
  string, which throws where the conversion does.
\<close>

definition compare_headline ::
  "(string \<Rightarrow> string \<Rightarrow> int) \<Rightarrow> json \<Rightarrow> json \<Rightarrow> error + int" where
  "compare_headline lc a b =
     (case get_prop a ''headline'' of
        Inl e \<Rightarrow> Inl e
      | Inr ah \<Rightarrow>
          (case ah of
             None \<Rightarrow> Inl TypeError
           | Some JNull \<Rightarrow> Inl TypeError
           | Some (JStr s) \<Rightarrow>
               (case get_prop b ''headline'' of
                  Inl e \<Rightarrow> Inl e
                | Inr bh \<Rightarrow>
                    (case ToString_opt bh of
                       Inl e \<Rightarrow> Inl e
                     | Inr t \<Rightarrow> Inr (lc s t)))
           | Some _ \<Rightarrow>
               (case get_prop b ''headline'' of
                  Inl e \<Rightarrow> Inl e
                | Inr bh \<Rightarrow> Inl TypeError)))"

text \<open>
  \<^verbatim>\<open>Array.prototype.sort\<close> is a stable sort, and a throw of the comparison leaves
  it. Which pairs it compares is the engine's choice; what it returns when no comparison
  throws is not. The model places the elements one by one, as Node does on a short array:
  the comparison gets the element being placed as its first argument and an element
  already placed as its second, and an array of fewer than two elements is never
  compared. The element goes in front of the first placed element it compares below, so
  after every placed element it compares equal to.
\<close>

fun insert_sorted ::
  "(json \<Rightarrow> json \<Rightarrow> error + int) \<Rightarrow> json \<Rightarrow> json list \<Rightarrow> error + json list" where
  "insert_sorted c p [] = Inr [p]"
| "insert_sorted c p (y # ys) =
     (case c p y of
        Inl e \<Rightarrow> Inl e
      | Inr n \<Rightarrow>
          if n < 0 then Inr (p # y # ys)
          else (case insert_sorted c p ys of
                  Inl e \<Rightarrow> Inl e
                | Inr zs \<Rightarrow> Inr (y # zs)))"

fun sort_from ::
  "(json \<Rightarrow> json \<Rightarrow> error + int) \<Rightarrow> json list \<Rightarrow> json list \<Rightarrow> error + json list" where
  "sort_from c placed [] = Inr placed"
| "sort_from c placed (p # ps) =
     (case insert_sorted c p placed of
        Inl e \<Rightarrow> Inl e
      | Inr placed' \<Rightarrow> sort_from c placed' ps)"

definition array_sort ::
  "(json \<Rightarrow> json \<Rightarrow> error + int) \<Rightarrow> json list \<Rightarrow> error + json list" where
  "array_sort c xs = sort_from c [] xs"

section \<open>The world the generator runs in\<close>

datatype images_dir =
    Absent
  | Unreadable
  | Entries "(string \<times> string) list"

text \<open>
  Everything \<^verbatim>\<open>generateSite\<close> reads: the runtime's \<^verbatim>\<open>localeCompare\<close>; whether
  \<^verbatim>\<open>emptyDir\<close> and \<^verbatim>\<open>ensureDir\<close> succeed; the three compiled templates (\<open>None\<close>
  when the template file cannot be read), each a function from its context to the
  rendered text (\<open>None\<close> when rendering throws); the names in \<^verbatim>\<open>data/recipes\<close>
  in the order the filesystem enumerates them (\<open>None\<close> when the directory cannot be
  read); the parse of each data file (\<open>None\<close> when
  \<^verbatim>\<open>readJson\<close> throws); which output paths can be written and copied to; the files
  at the project root; the \<^verbatim>\<open>images\<close> directory, its file entries as
  \<^verbatim>\<open>readdir\<close> hands them over.
\<close>

record env =
  localeCompare :: "string \<Rightarrow> string \<Rightarrow> int"
  emptyDir_ok :: bool
  layoutTemplate :: "(json \<Rightarrow> string option) option"
  recipeTemplate :: "(json \<Rightarrow> string option) option"
  indexTemplate :: "(json \<Rightarrow> string option) option"
  recipesDir_entries :: "string list option"
  readJson :: "string \<Rightarrow> json option"
  writeFile_ok :: "string \<Rightarrow> bool"
  ensureDir_ok :: bool
  rootFiles :: "string \<Rightarrow> string option"
  copy_ok :: "string \<Rightarrow> bool"
  imagesDir :: images_dir

text \<open>
  The \<^verbatim>\<open>public\<close> directory (its files by path relative to it, and its
  subdirectories) and the console.
\<close>

record site =
  files :: "string \<Rightarrow> string option"
  dirs :: "string set"
  console :: "log_line list"

section \<open>The steps of \<^verbatim>\<open>generateSite\<close>\<close>

definition load_templates ::
  "env \<Rightarrow> error + ((json \<Rightarrow> string option) \<times> (json \<Rightarrow> string option) \<times> (json \<Rightarrow> string option))" where
  "load_templates e =
     (case layoutTemplate e of
        None \<Rightarrow> Inl (ReadError ''layout.hbs'')
      | Some lt \<Rightarrow>
          (case recipeTemplate e of
             None \<Rightarrow> Inl (ReadError ''recipe.hbs'')
           | Some rt \<Rightarrow>
               (case indexTemplate e of
                  None \<Rightarrow> Inl (ReadError ''index.hbs'')
                | Some it \<Rightarrow> Inr (lt, rt, it))))"

text \<open>The loop over \<^verbatim>\<open>recipeFiles\<close>, with \<^verbatim>\<open>allRecipesData\<close> as the accumulator.\<close>

fun load_records :: "env \<Rightarrow> json list \<Rightarrow> string list \<Rightarrow> error + json list" where
  "load_records e allRecipesData [] = Inr allRecipesData"
| "load_records e allRecipesData (recipeFile # rest) =
     (if endsWith recipeFile ''.jsonld'' then
        (case readJson e recipeFile of
           None \<Rightarrow> Inl (ParseError recipeFile)
         | Some content \<Rightarrow> load_records e (allRecipesData @ [content]) rest)
      else load_records e allRecipesData rest)"

text \<open>
  \<^verbatim>\<open>fs.readdir\<close> is the one of \<^verbatim>\<open>fs-extra\<close>, which is that of
  \<^verbatim>\<open>graceful-fs\<close>: it sorts the names it got from the filesystem
  (\<^verbatim>\<open>files.sort()\<close>, strings compared unit by unit, a prefix first) before it hands
  them over.
\<close>

definition readdir :: "string list \<Rightarrow> string list" where
  "readdir entries = sort entries"

definition read_all_recipes :: "env \<Rightarrow> error + json list" where
  "read_all_recipes e =
     (case recipesDir_entries e of
        None \<Rightarrow> Inl (ReadError ''recipes'')
      | Some entries \<Rightarrow> load_records e [] (readdir entries))"

text \<open>
  \<^verbatim>\<open>{ ...recipeData, body: recipeContent, recipes: allRecipesData }\<close>: a later
  property replaces the value of an earlier one of the same name and is added at the
  end otherwise.
\<close>

definition page_context :: "json \<Rightarrow> string \<Rightarrow> json list \<Rightarrow> (string \<times> json) list" where
  "page_context recipeData recipeContent allRecipesData =
     AList.update ''recipes'' (JArr allRecipesData)
       (AList.update ''body'' (JStr recipeContent) (own_props recipeData))"

definition index_title :: string where
  "index_title = ''The Bread Poets'' @ [CHR 0x27] @ '' Society: recipes in verse''"

definition index_context :: "string \<Rightarrow> json list \<Rightarrow> (string \<times> json) list" where
  "index_context indexContent allRecipesData =
     [(''pageTitle'', JStr index_title),
      (''body'', JStr indexContent),
      (''recipes'', JArr allRecipesData)]"

text \<open>
  The effects: a line on the console, the output directory emptied, a subdirectory of
  it made, a file put at a path of it.
\<close>

definition console_log :: "string \<Rightarrow> site \<Rightarrow> site" where
  "console_log m s = s\<lparr>console := console s @ [Log m]\<rparr>"

definition console_warn :: "string \<Rightarrow> site \<Rightarrow> site" where
  "console_warn m s = s\<lparr>console := console s @ [Warn m]\<rparr>"

definition console_error :: "error \<Rightarrow> site \<Rightarrow> site" where
  "console_error err s = s\<lparr>console := console s @ [ErrorLog err]\<rparr>"

definition empty_dir :: "site \<Rightarrow> site" where
  "empty_dir s = s\<lparr>files := Map.empty, dirs := {}\<rparr>"

definition ensure_dir :: "string \<Rightarrow> site \<Rightarrow> site" where
  "ensure_dir d s = s\<lparr>dirs := insert d (dirs s)\<rparr>"

definition put_file :: "string \<Rightarrow> string \<Rightarrow> site \<Rightarrow> site" where
  "put_file path bytes s = s\<lparr>files := (files s)(path \<mapsto> bytes)\<rparr>"

definition write_page :: "string \<Rightarrow> string \<Rightarrow> site \<Rightarrow> site" where
  "write_page name html s = console_log (''Generated: '' @ name) (put_file name html s)"

fun generate_pages ::
  "env \<Rightarrow> (json \<Rightarrow> string option) \<Rightarrow> (json \<Rightarrow> string option) \<Rightarrow> json list \<Rightarrow>
   json list \<Rightarrow> site \<Rightarrow> site \<times> error option" where
  "generate_pages e lt rt allRecipesData [] s = (s, None)"
| "generate_pages e lt rt allRecipesData (recipeData # rest) s =
     (case rt recipeData of
        None \<Rightarrow> (s, Some TemplateError)
      | Some recipeContent \<Rightarrow>
          (case lt (JObj (page_context recipeData recipeContent allRecipesData)) of
             None \<Rightarrow> (s, Some TemplateError)
           | Some pageHtml \<Rightarrow>
               (case get_prop recipeData ''slug'' of
                  Inl err \<Rightarrow> (s, Some err)
                | Inr slug \<Rightarrow>
                    (case ToString_opt slug of
                       Inl err \<Rightarrow> (s, Some err)
                     | Inr stem \<Rightarrow>
                         (let name = stem @ ''.html'' in
                          if writeFile_ok e name
                          then generate_pages e lt rt allRecipesData rest
                                 (write_page name pageHtml s)
                          else (s, Some (WriteError name)))))))"

definition generate_index ::
  "env \<Rightarrow> (json \<Rightarrow> string option) \<Rightarrow> (json \<Rightarrow> string option) \<Rightarrow> json list \<Rightarrow>
   site \<Rightarrow> site \<times> error option" where
  "generate_index e lt it allRecipesData s =
     (case it (JObj []) of
        None \<Rightarrow> (s, Some TemplateError)
      | Some indexContent \<Rightarrow>
          (case lt (JObj (index_context indexContent allRecipesData)) of
             None \<Rightarrow> (s, Some TemplateError)
           | Some indexHtml \<Rightarrow>
               if writeFile_ok e ''index.html''
               then (write_page ''index.html'' indexHtml s, None)
               else (s, Some (WriteError ''index.html''))))"

definition assetsToCopy :: "string list" where
  "assetsToCopy =
     [''bps.css'', ''CNAME'', ''robots.txt'', ''favicon.ico'', ''bread1.gif'',
      ''img_4638_small.jpg'', ''lemony_chickpea.jpg'', ''pancakes-small.jpg'',
      ''smack-pie.jpg'', ''why.html'', ''colorgame.html'']"

fun copy_assets :: "env \<Rightarrow> string list \<Rightarrow> site \<Rightarrow> site \<times> error option" where
  "copy_assets e [] s = (s, None)"
| "copy_assets e (asset # rest) s =
     (case rootFiles e asset of
        Some bytes \<Rightarrow>
          if copy_ok e asset
          then copy_assets e rest
                 (console_log (''Copied: '' @ asset) (put_file asset bytes s))
          else (s, Some (CopyError asset))
      | None \<Rightarrow>
          copy_assets e rest
            (console_warn (''Asset not found, skipped: '' @ asset) s))"

fun copy_image_files :: "env \<Rightarrow> (string \<times> string) list \<Rightarrow> site \<Rightarrow> site \<times> error option" where
  "copy_image_files e [] s = (s, None)"
| "copy_image_files e ((imgFile, bytes) # rest) s =
     (if copy_ok e (''images/'' @ imgFile)
      then copy_image_files e rest
             (console_log (''Copied image: images/'' @ imgFile)
                (put_file (''images/'' @ imgFile) bytes s))
      else (s, Some (CopyError (''images/'' @ imgFile))))"

definition copy_images :: "env \<Rightarrow> site \<Rightarrow> site \<times> error option" where
  "copy_images e s =
     (case imagesDir e of
        Entries imageFiles \<Rightarrow> copy_image_files e imageFiles s
      | Unreadable \<Rightarrow> (s, Some (ReadError ''images''))
      | Absent \<Rightarrow>
          (console_warn
             ''Root images directory not found, skipped copying images from there.'' s,
           None))"

text \<open>Lines 68 to 110: the images directory of the output, the manifest, the images.\<close>

definition copy_static :: "env \<Rightarrow> site \<Rightarrow> site \<times> error option" where
  "copy_static e s =
     (if \<not> ensureDir_ok e then (s, Some EnsureDirError)
      else
        (case copy_assets e assetsToCopy (ensure_dir ''images'' s) of
           (s1, Some err) \<Rightarrow> (s1, Some err)
         | (s1, None) \<Rightarrow>
             (case copy_images e s1 of
                (s2, Some err) \<Rightarrow> (s2, Some err)
              | (s2, None) \<Rightarrow>
                  (console_log ''Static site generation complete!'' s2, None))))"

text \<open>Lines 41 to 66: sort, the page of each record, the listing page.\<close>

definition render_site ::
  "env \<Rightarrow> (json \<Rightarrow> string option) \<Rightarrow> (json \<Rightarrow> string option) \<Rightarrow> (json \<Rightarrow> string option) \<Rightarrow>
   json list \<Rightarrow> site \<Rightarrow> site \<times> error option" where
  "render_site e lt rt it loaded s =
     (case array_sort (compare_headline (localeCompare e)) loaded of
        Inl err \<Rightarrow> (s, Some err)
      | Inr allRecipesData \<Rightarrow>
          (case generate_pages e lt rt allRecipesData allRecipesData s of
             (s1, Some err) \<Rightarrow> (s1, Some err)
           | (s1, None) \<Rightarrow>
               (case generate_index e lt it allRecipesData s1 of
                  (s2, Some err) \<Rightarrow> (s2, Some err)
                | (s2, None) \<Rightarrow> copy_static e s2)))"

text \<open>The body of the \<^verbatim>\<open>try\<close>: the site when it ends and the error thrown, if any.\<close>

definition try_body :: "env \<Rightarrow> site \<Rightarrow> site \<times> error option" where
  "try_body e s0 =
     (if \<not> emptyDir_ok e then (s0, Some EmptyDirError)
      else
        (let s = empty_dir s0 in
         case load_templates e of
           Inl err \<Rightarrow> (s, Some err)
         | Inr (lt, rt, it) \<Rightarrow>
             (case read_all_recipes e of
                Inl err \<Rightarrow> (s, Some err)
              | Inr loaded \<Rightarrow> render_site e lt rt it loaded s)))"

text \<open>The site left behind and the exit status of the process.\<close>

definition generateSite :: "env \<Rightarrow> site \<Rightarrow> site \<times> nat" where
  "generateSite e s0 =
     (case try_body e s0 of
        (s, None) \<Rightarrow> (s, 0)
      | (s, Some err) \<Rightarrow> (console_error err s, 1))"

section \<open>Observations used in the statements\<close>

text \<open>Whether \<^verbatim>\<open>v.headline\<close> is a string, and the text a record is compared by.\<close>

definition has_string_headline :: "json \<Rightarrow> bool" where
  "has_string_headline v =
     (case get_prop v ''headline'' of
        Inr (Some (JStr s)) \<Rightarrow> True
      | _ \<Rightarrow> False)"

definition headline_key :: "json \<Rightarrow> string" where
  "headline_key v =
     (case get_prop v ''headline'' of
        Inr h \<Rightarrow> (case ToString_opt h of Inr t \<Rightarrow> t | Inl err \<Rightarrow> [])
      | Inl err \<Rightarrow> [])"

text \<open>
  Whether a record can be the argument of the comparison, and the name of the page
  file of a record (empty where evaluating the name throws).
\<close>

definition comparable_argument :: "json \<Rightarrow> bool" where
  "comparable_argument v =
     (case get_prop v ''headline'' of
        Inr h \<Rightarrow> (case ToString_opt h of Inr t \<Rightarrow> True | Inl err \<Rightarrow> False)
      | Inl err \<Rightarrow> False)"

definition page_name :: "json \<Rightarrow> string" where
  "page_name v =
     (case get_prop v ''slug'' of
        Inr slug \<Rightarrow> (case ToString_opt slug of Inr stem \<Rightarrow> stem @ ''.html'' | Inl err \<Rightarrow> [])
      | Inl err \<Rightarrow> [])"

text \<open>
  What a locale comparison is relied on for: swapping the arguments swaps the sign, and
  "not above" is transitive.
\<close>

definition consistent_compare :: "(string \<Rightarrow> string \<Rightarrow> int) \<Rightarrow> bool" where
  "consistent_compare lc =
     ((\<forall>a b. (lc a b < 0) = (0 < lc b a)) \<and>
      (\<forall>a b c. lc a b \<le> 0 \<longrightarrow> lc b c \<le> 0 \<longrightarrow> lc a c \<le> 0))"

text \<open>The order the comparison sorts by, and the records that compare equal to a headline.\<close>

definition headline_le :: "(string \<Rightarrow> string \<Rightarrow> int) \<Rightarrow> json \<Rightarrow> json \<Rightarrow> bool" where
  "headline_le lc a b = (lc (headline_key a) (headline_key b) \<le> 0)"

definition same_headline :: "(string \<Rightarrow> string \<Rightarrow> int) \<Rightarrow> string \<Rightarrow> json \<Rightarrow> bool" where
  "same_headline lc h r = (lc (headline_key r) h = 0)"

text \<open>Two states of the output directory with the same files and subdirectories.\<close>

definition same_output :: "site \<Rightarrow> site \<Rightarrow> bool" where
  "same_output s t = (files s = files t \<and> dirs s = dirs t)"

definition is_generated_line :: "log_line \<Rightarrow> bool" where
  "is_generated_line l =
     (case l of Log m \<Rightarrow> take 11 m = ''Generated: '' | _ \<Rightarrow> False)"

section \<open>A small site to run the generator on\<close>

fun sample_compare :: "string \<Rightarrow> string \<Rightarrow> int" where
  "sample_compare [] [] = 0"
| "sample_compare [] (y # ys) = - 1"
| "sample_compare (x # xs) [] = 1"
| "sample_compare (x # xs) (y # ys) =
     (if (of_char x :: nat) < of_char y then - 1
      else if (of_char y :: nat) < of_char x then 1
      else sample_compare xs ys)"

text \<open>Templates that print a property of their context, and nothing for one it lacks.\<close>

definition render_prop :: "json \<Rightarrow> string \<Rightarrow> string" where
  "render_prop ctx k =
     (case map_of (own_props ctx) k of
        None \<Rightarrow> []
      | Some v \<Rightarrow> (case ToString v of Inr t \<Rightarrow> t | Inl err \<Rightarrow> []))"

definition nav_slugs :: "json \<Rightarrow> string" where
  "nav_slugs ctx =
     (case map_of (own_props ctx) ''recipes'' of
        Some (JArr rs) \<Rightarrow> concat (map (\<lambda>r. render_prop r ''slug'' @ '';'') rs)
      | _ \<Rightarrow> [])"

definition sample_layout :: "json \<Rightarrow> string option" where
  "sample_layout ctx =
     Some (render_prop ctx ''pageTitle'' @ ''|'' @ render_prop ctx ''body'' @ ''|'' @
           nav_slugs ctx)"

definition sample_recipe :: "json \<Rightarrow> string option" where
  "sample_recipe r = Some (render_prop r ''headline'')"

definition sample_index :: "json \<Rightarrow> string option" where
  "sample_index ctx = Some ''welcome''"

definition apple :: json where
  "apple = JObj [(''slug'', JStr ''apple''), (''headline'', JStr ''Apple''),
                 (''pageTitle'', JStr ''Apple pie''), (''body'', JStr ''ignored'')]"

definition bread :: json where
  "bread = JObj [(''slug'', JStr ''bread''), (''headline'', JStr ''Bread'')]"

definition crumb :: json where
  "crumb = JObj [(''slug'', JStr ''crumb'')]"

definition dill :: json where
  "dill = JObj [(''slug'', JStr ''dill''), (''headline'', JStr ''Dill'')]"

definition rye_one :: json where
  "rye_one = JObj [(''slug'', JStr ''rye''), (''headline'', JStr ''Rye, first'')]"

definition rye_two :: json where
  "rye_two = JObj [(''slug'', JStr ''rye''), (''headline'', JStr ''Rye, second'')]"

definition sample_readJson :: "string \<Rightarrow> json option" where
  "sample_readJson f =
     (if f = ''a.jsonld'' then Some apple
      else if f = ''b.jsonld'' then Some bread
      else if f = ''c.jsonld'' then Some crumb
      else if f = ''d.jsonld'' then Some dill
      else if f = ''r1.jsonld'' then Some rye_one
      else if f = ''r2.jsonld'' then Some rye_two
      else None)"

definition sample_env :: env where
  "sample_env =
     \<lparr>localeCompare = sample_compare,
      emptyDir_ok = True,
      layoutTemplate = Some sample_layout,
      recipeTemplate = Some sample_recipe,
      indexTemplate = Some sample_index,
      recipesDir_entries = Some [''b.jsonld'', ''notes.txt'', ''a.jsonld''],
      readJson = sample_readJson,
      writeFile_ok = (\<lambda>name. True),
      ensureDir_ok = True,
      rootFiles = (\<lambda>f. if f = ''bps.css'' then Some ''body {}'' else None),
      copy_ok = (\<lambda>name. True),
      imagesDir = Absent\<rparr>"

definition stale_site :: site where
  "stale_site =
     \<lparr>files = [''old.html'' \<mapsto> ''stale''], dirs = {''images''}, console = []\<rparr>"

definition empty_site :: site where
  "empty_site = \<lparr>files = Map.empty, dirs = {}, console = []\<rparr>"

definition sample_env_images :: env where
  "sample_env_images =
     sample_env\<lparr>imagesDir := Entries [(''loaf.png'', ''PNG1''), (''bun.png'', ''PNG2'')]\<rparr>"

definition sample_env_malformed :: env where
  "sample_env_malformed =
     sample_env\<lparr>recipesDir_entries := Some [''a.jsonld'', ''bad.jsonld'', ''b.jsonld'']\<rparr>"

definition sample_env_no_headline :: env where
  "sample_env_no_headline = sample_env\<lparr>recipesDir_entries := Some [''b.jsonld'', ''c.jsonld'']\<rparr>"

definition sample_env_first_no_headline :: env where
  "sample_env_first_no_headline =
     sample_env\<lparr>recipesDir_entries := Some [''d.jsonld'', ''c.jsonld'']\<rparr>"

definition sample_env_shared_slug :: env where
  "sample_env_shared_slug =
     sample_env\<lparr>recipesDir_entries := Some [''r2.jsonld'', ''r1.jsonld'']\<rparr>"

definition sample_env_one_record :: env where
  "sample_env_one_record = sample_env\<lparr>recipesDir_entries := Some [''c.jsonld'']\<rparr>"

definition sample_env_empty :: env where
  "sample_env_empty = sample_env\<lparr>recipesDir_entries := Some [''notes.txt'']\<rparr>"

text \<open>Two records with one headline, and a data directory listed in a given order.\<close>

definition loaf_x :: json where
  "loaf_x = JObj [(''slug'', JStr ''x''), (''headline'', JStr ''Loaf'')]"

definition loaf_y :: json where
  "loaf_y = JObj [(''slug'', JStr ''y''), (''headline'', JStr ''Loaf'')]"

definition twins_base :: env where
  "twins_base =
     sample_env\<lparr>readJson := (\<lambda>f. if f = ''x.jsonld'' then Some loaf_x
                                  else if f = ''y.jsonld'' then Some loaf_y
                                  else None)\<rparr>"

definition twins_env :: "string list \<Rightarrow> env" where
  "twins_env fs = twins_base\<lparr>recipesDir_entries := Some fs\<rparr>"

section \<open>The effects, field by field\<close>

lemma console_log_fields:
  "files (console_log m s) = files s"
  "dirs (console_log m s) = dirs s"
  "console (console_log m s) = console s @ [Log m]"
  by (simp_all add: console_log_def)

lemma console_warn_fields:
  "files (console_warn m s) = files s"
  "dirs (console_warn m s) = dirs s"
  "console (console_warn m s) = console s @ [Warn m]"
  by (simp_all add: console_warn_def)

lemma console_error_fields:
  "files (console_error err s) = files s"
  "dirs (console_error err s) = dirs s"
  "console (console_error err s) = console s @ [ErrorLog err]"
  by (simp_all add: console_error_def)

lemma put_file_fields:
  "files (put_file p b s) = (files s)(p \<mapsto> b)"
  "dirs (put_file p b s) = dirs s"
  "console (put_file p b s) = console s"
  by (simp_all add: put_file_def)

lemma ensure_dir_fields:
  "files (ensure_dir d s) = files s"
  "dirs (ensure_dir d s) = insert d (dirs s)"
  "console (ensure_dir d s) = console s"
  by (simp_all add: ensure_dir_def)

lemma empty_dir_fields:
  "files (empty_dir s) = Map.empty"
  "dirs (empty_dir s) = {}"
  "console (empty_dir s) = console s"
  by (simp_all add: empty_dir_def)

lemma write_page_fields:
  "files (write_page n h s) = (files s)(n \<mapsto> h)"
  "dirs (write_page n h s) = dirs s"
  "console (write_page n h s) = console s @ [Log (''Generated: '' @ n)]"
  by (simp_all add: write_page_def console_log_fields put_file_fields)

lemmas effect_fields =
  console_log_fields console_warn_fields console_error_fields put_file_fields
  ensure_dir_fields empty_dir_fields write_page_fields

section \<open>Copying the static assets\<close>

lemma copy_assets_dirs: "copy_assets e as s = (s', r) \<Longrightarrow> dirs s' = dirs s"
proof (induction as arbitrary: s)
  case Nil
  then show ?case by simp
next
  case (Cons a as)
  show ?case
  proof (cases "rootFiles e a")
    case None
    with Cons.prems
    have "copy_assets e as (console_warn (''Asset not found, skipped: '' @ a) s) = (s', r)"
      by simp
    from Cons.IH[OF this] show ?thesis by (simp add: effect_fields)
  next
    case (Some bytes)
    show ?thesis
    proof (cases "copy_ok e a")
      case True
      with Cons.prems Some
      have "copy_assets e as (console_log (''Copied: '' @ a) (put_file a bytes s)) = (s', r)"
        by simp
      from Cons.IH[OF this] show ?thesis by (simp add: effect_fields)
    next
      case False
      with Cons.prems Some show ?thesis by simp
    qed
  qed
qed

lemma copy_assets_console:
  "copy_assets e as s = (s', r) \<Longrightarrow> set (console s) \<subseteq> set (console s')"
proof (induction as arbitrary: s)
  case Nil
  then show ?case by simp
next
  case (Cons a as)
  show ?case
  proof (cases "rootFiles e a")
    case None
    with Cons.prems
    have "copy_assets e as (console_warn (''Asset not found, skipped: '' @ a) s) = (s', r)"
      by simp
    from Cons.IH[OF this] show ?thesis by (simp add: effect_fields)
  next
    case (Some bytes)
    show ?thesis
    proof (cases "copy_ok e a")
      case True
      with Cons.prems Some
      have "copy_assets e as (console_log (''Copied: '' @ a) (put_file a bytes s)) = (s', r)"
        by simp
      from Cons.IH[OF this] show ?thesis by (simp add: effect_fields)
    next
      case False
      with Cons.prems Some show ?thesis by simp
    qed
  qed
qed

lemma copy_assets_files:
  "copy_assets e as s = (s', None) \<Longrightarrow>
   files s' k = (if k \<in> set as \<and> rootFiles e k \<noteq> None then rootFiles e k else files s k)"
proof (induction as arbitrary: s)
  case Nil
  then show ?case by simp
next
  case (Cons a as)
  show ?case
  proof (cases "rootFiles e a")
    case None
    with Cons.prems
    have "copy_assets e as (console_warn (''Asset not found, skipped: '' @ a) s) = (s', None)"
      by simp
    from Cons.IH[OF this] None show ?thesis by (auto simp: effect_fields)
  next
    case (Some bytes)
    show ?thesis
    proof (cases "copy_ok e a")
      case True
      with Cons.prems Some
      have "copy_assets e as (console_log (''Copied: '' @ a) (put_file a bytes s)) = (s', None)"
        by simp
      from Cons.IH[OF this] Some show ?thesis by (auto simp: effect_fields)
    next
      case False
      with Cons.prems Some show ?thesis by simp
    qed
  qed
qed

lemma copy_assets_logged:
  "copy_assets e as s = (s', None) \<Longrightarrow> a \<in> set as \<Longrightarrow>
   (case rootFiles e a of
      Some bytes \<Rightarrow> Log (''Copied: '' @ a) \<in> set (console s')
    | None \<Rightarrow> Warn (''Asset not found, skipped: '' @ a) \<in> set (console s'))"
proof (induction as arbitrary: s)
  case Nil
  then show ?case by simp
next
  case (Cons b bs)
  show ?case
  proof (cases "rootFiles e b")
    case None
    let ?s1 = "console_warn (''Asset not found, skipped: '' @ b) s"
    from Cons.prems(1) None have step: "copy_assets e bs ?s1 = (s', None)" by simp
    show ?thesis
    proof (cases "a = b")
      case True
      from copy_assets_console[OF step]
      have "Warn (''Asset not found, skipped: '' @ b) \<in> set (console s')"
        by (auto simp: effect_fields)
      with True None show ?thesis by simp
    next
      case False
      with Cons.prems(2) have "a \<in> set bs" by simp
      from Cons.IH[OF step this] show ?thesis .
    qed
  next
    case (Some bytes)
    let ?s1 = "console_log (''Copied: '' @ b) (put_file b bytes s)"
    from Cons.prems(1) Some have step: "copy_assets e bs ?s1 = (s', None)"
      by (simp split: if_splits)
    show ?thesis
    proof (cases "a = b")
      case True
      from copy_assets_console[OF step] have "Log (''Copied: '' @ b) \<in> set (console s')"
        by (auto simp: effect_fields)
      with True Some show ?thesis by simp
    next
      case False
      with Cons.prems(2) have "a \<in> set bs" by simp
      from Cons.IH[OF step this] show ?thesis .
    qed
  qed
qed

lemma copy_assets_succeeds:
  "\<forall>a\<in>set as. rootFiles e a \<noteq> None \<longrightarrow> copy_ok e a \<Longrightarrow> \<exists>s'. copy_assets e as s = (s', None)"
  by (induction as arbitrary: s) (auto split: option.splits)

lemma copy_image_files_dirs: "copy_image_files e es s = (s', r) \<Longrightarrow> dirs s' = dirs s"
proof (induction es arbitrary: s)
  case Nil
  then show ?case by simp
next
  case (Cons x xs)
  obtain m c where x: "x = (m, c)" by (cases x)
  show ?case
  proof (cases "copy_ok e (''images/'' @ m)")
    case True
    with Cons.prems x
    have "copy_image_files e xs
            (console_log (''Copied image: images/'' @ m) (put_file (''images/'' @ m) c s)) = (s', r)"
      by simp
    from Cons.IH[OF this] show ?thesis by (simp add: effect_fields)
  next
    case False
    with Cons.prems x show ?thesis by simp
  qed
qed

lemma copy_image_files_console:
  "copy_image_files e es s = (s', r) \<Longrightarrow> set (console s) \<subseteq> set (console s')"
proof (induction es arbitrary: s)
  case Nil
  then show ?case by simp
next
  case (Cons x xs)
  obtain m c where x: "x = (m, c)" by (cases x)
  show ?case
  proof (cases "copy_ok e (''images/'' @ m)")
    case True
    with Cons.prems x
    have "copy_image_files e xs
            (console_log (''Copied image: images/'' @ m) (put_file (''images/'' @ m) c s)) = (s', r)"
      by simp
    from Cons.IH[OF this] show ?thesis by (simp add: effect_fields)
  next
    case False
    with Cons.prems x show ?thesis by simp
  qed
qed

lemma copy_image_files_other:
  "copy_image_files e es s = (s', r) \<Longrightarrow> \<forall>n\<in>fst ` set es. k \<noteq> ''images/'' @ n \<Longrightarrow>
   files s' k = files s k"
proof (induction es arbitrary: s)
  case Nil
  then show ?case by simp
next
  case (Cons x xs)
  obtain m c where x: "x = (m, c)" by (cases x)
  from Cons.prems(2) x have k: "k \<noteq> ''images/'' @ m" and rest: "\<forall>n\<in>fst ` set xs. k \<noteq> ''images/'' @ n"
    by auto
  show ?case
  proof (cases "copy_ok e (''images/'' @ m)")
    case True
    with Cons.prems(1) x
    have "copy_image_files e xs
            (console_log (''Copied image: images/'' @ m) (put_file (''images/'' @ m) c s)) = (s', r)"
      by simp
    from Cons.IH[OF this rest] k show ?thesis by (simp add: effect_fields)
  next
    case False
    with Cons.prems x show ?thesis by simp
  qed
qed

lemma copy_image_files_copied:
  "copy_image_files e es s = (s', None) \<Longrightarrow> distinct (map fst es) \<Longrightarrow> (n, bytes) \<in> set es \<Longrightarrow>
   files s' (''images/'' @ n) = Some bytes \<and>
   Log (''Copied image: images/'' @ n) \<in> set (console s')"
proof (induction es arbitrary: s)
  case Nil
  then show ?case by simp
next
  case (Cons x xs)
  obtain m c where x: "x = (m, c)" by (cases x)
  let ?s1 = "console_log (''Copied image: images/'' @ m) (put_file (''images/'' @ m) c s)"
  from Cons.prems(1) x have step: "copy_image_files e xs ?s1 = (s', None)"
    by (simp split: if_splits)
  show ?case
  proof (cases "(n, bytes) = x")
    case True
    with x have nm: "n = m" "bytes = c" by simp_all
    from Cons.prems(2) x have "\<forall>n\<in>fst ` set xs. ''images/'' @ m \<noteq> ''images/'' @ n" by auto
    from copy_image_files_other[OF step this]
    have "files s' (''images/'' @ m) = Some c" by (simp add: effect_fields)
    moreover from copy_image_files_console[OF step]
    have "Log (''Copied image: images/'' @ m) \<in> set (console s')" by (auto simp: effect_fields)
    ultimately show ?thesis using nm by simp
  next
    case False
    with Cons.prems(3) have "(n, bytes) \<in> set xs" by simp
    moreover from Cons.prems(2) have "distinct (map fst xs)" by simp
    ultimately show ?thesis using Cons.IH[OF step] by simp
  qed
qed

lemma copy_images_dirs: "copy_images e s = (s', r) \<Longrightarrow> dirs s' = dirs s"
  by (cases "imagesDir e") (auto simp: copy_images_def effect_fields dest: copy_image_files_dirs)

lemma copy_images_absent:
  "imagesDir e = Absent \<Longrightarrow>
   copy_images e s =
     (console_warn ''Root images directory not found, skipped copying images from there.'' s, None)"
  by (simp add: copy_images_def)

lemma images_not_asset: "''images/'' @ n \<notin> set assetsToCopy"
  by (simp add: assetsToCopy_def)

lemma copy_static_cases:
  assumes "copy_static e s = (s', r)"
  obtains
    (ensure) "\<not> ensureDir_ok e" "s' = s" "r = Some EnsureDirError"
  | (assets) err where "ensureDir_ok e"
      "copy_assets e assetsToCopy (ensure_dir ''images'' s) = (s', Some err)"
      "r = Some err"
  | (images) s1 err where "ensureDir_ok e"
      "copy_assets e assetsToCopy (ensure_dir ''images'' s) = (s1, None)"
      "copy_images e s1 = (s', Some err)" "r = Some err"
  | (complete) s1 s2 where "ensureDir_ok e"
      "copy_assets e assetsToCopy (ensure_dir ''images'' s) = (s1, None)"
      "copy_images e s1 = (s2, None)"
      "s' = console_log ''Static site generation complete!'' s2"
      "r = None"
proof (cases "ensureDir_ok e")
  case False
  with assms ensure show ?thesis by (auto simp: copy_static_def)
next
  case ok: True
  obtain s1 r1 where a: "copy_assets e assetsToCopy (ensure_dir ''images'' s) = (s1, r1)"
    by (cases "copy_assets e assetsToCopy (ensure_dir ''images'' s)")
  show ?thesis
  proof (cases r1)
    case (Some err)
    with assms ok a assets show ?thesis by (auto simp: copy_static_def)
  next
    case None
    obtain s2 r2 where b: "copy_images e s1 = (s2, r2)" by (cases "copy_images e s1")
    show ?thesis
    proof (cases r2)
      case (Some err)
      with assms ok a None b images show ?thesis by (auto simp: copy_static_def)
    next
      case n2: None
      with assms ok a None b complete show ?thesis by (auto simp: copy_static_def)
    qed
  qed
qed

lemma copy_static_dirs:
  assumes "ensureDir_ok e" "copy_static e s = (s', r)"
  shows "dirs s' = insert ''images'' (dirs s)"
  using assms(2)
proof (cases rule: copy_static_cases)
  case ensure
  with assms show ?thesis by simp
next
  case (assets err)
  from copy_assets_dirs[OF assets(2)] show ?thesis by (simp add: effect_fields)
next
  case (images s1 err)
  from copy_assets_dirs[OF images(2)] copy_images_dirs[OF images(3)]
  show ?thesis by (simp add: effect_fields)
next
  case (complete s1 s2)
  from copy_assets_dirs[OF complete(2)] copy_images_dirs[OF complete(3)] complete(4)
  show ?thesis by (simp add: effect_fields)
qed

lemma copy_assets_other:
  "copy_assets e as s = (s', r) \<Longrightarrow> k \<notin> set as \<Longrightarrow> files s' k = files s k"
proof (induction as arbitrary: s)
  case Nil
  then show ?case by simp
next
  case (Cons a as)
  from Cons.prems(2) have ka: "k \<noteq> a" and kas: "k \<notin> set as" by auto
  show ?case
  proof (cases "rootFiles e a")
    case None
    with Cons.prems
    have "copy_assets e as (console_warn (''Asset not found, skipped: '' @ a) s) = (s', r)"
      by simp
    from Cons.IH[OF this kas] show ?thesis by (simp add: effect_fields)
  next
    case (Some bytes)
    show ?thesis
    proof (cases "copy_ok e a")
      case True
      with Cons.prems Some
      have "copy_assets e as (console_log (''Copied: '' @ a) (put_file a bytes s)) = (s', r)"
        by simp
      from Cons.IH[OF this kas] ka show ?thesis by (simp add: effect_fields)
    next
      case False
      with Cons.prems Some show ?thesis by simp
    qed
  qed
qed

section \<open>The steps that a finished build went through\<close>

lemma render_site_success:
  assumes "render_site e lt rt it loaded s = (s', None)"
  obtains sorted s1 s2 where
    "array_sort (compare_headline (localeCompare e)) loaded = Inr sorted"
    "generate_pages e lt rt sorted sorted s = (s1, None)"
    "generate_index e lt it sorted s1 = (s2, None)"
    "copy_static e s2 = (s', None)"
proof (cases "array_sort (compare_headline (localeCompare e)) loaded")
  case (Inl err)
  with assms show ?thesis by (simp add: render_site_def)
next
  case (Inr sorted)
  obtain s1 r1 where p: "generate_pages e lt rt sorted sorted s = (s1, r1)"
    by (cases "generate_pages e lt rt sorted sorted s")
  obtain s2 r2 where i: "generate_index e lt it sorted s1 = (s2, r2)"
    by (cases "generate_index e lt it sorted s1")
  from assms Inr p have r1: "r1 = None"
    by (cases r1) (auto simp: render_site_def)
  from assms Inr p i r1 have r2: "r2 = None"
    by (cases r2) (auto simp: render_site_def)
  from assms Inr p i r1 r2 have "copy_static e s2 = (s', None)"
    by (simp add: render_site_def)
  with that Inr p i r1 r2 show ?thesis by simp
qed

lemma try_body_success:
  assumes "try_body e s0 = (s', None)"
  obtains lt rt it loaded where
    "emptyDir_ok e"
    "load_templates e = Inr (lt, rt, it)"
    "read_all_recipes e = Inr loaded"
    "render_site e lt rt it loaded (empty_dir s0) = (s', None)"
proof -
  from assms have ok: "emptyDir_ok e"
    by (auto simp: try_body_def split: if_splits)
  from assms ok obtain lt rt it where t: "load_templates e = Inr (lt, rt, it)"
    by (cases "load_templates e") (auto simp: try_body_def)
  from assms ok t obtain loaded where l: "read_all_recipes e = Inr loaded"
    by (cases "read_all_recipes e") (auto simp: try_body_def)
  from assms ok t l
  have "render_site e lt rt it loaded (empty_dir s0) = (s', None)"
    by (simp add: try_body_def)
  with that ok t l show ?thesis by simp
qed

lemma generateSite_exit_0:
  assumes "generateSite e s0 = (s', 0)"
  shows "try_body e s0 = (s', None)"
proof -
  obtain s r where t: "try_body e s0 = (s, r)" by (cases "try_body e s0")
  with assms show ?thesis by (cases r) (auto simp: generateSite_def)
qed

lemma generateSite_success:
  assumes "generateSite e s0 = (s', 0)"
  obtains lt rt it loaded sorted s1 s2 where
    "emptyDir_ok e"
    "load_templates e = Inr (lt, rt, it)"
    "read_all_recipes e = Inr loaded"
    "array_sort (compare_headline (localeCompare e)) loaded = Inr sorted"
    "generate_pages e lt rt sorted sorted (empty_dir s0) = (s1, None)"
    "generate_index e lt it sorted s1 = (s2, None)"
    "copy_static e s2 = (s', None)"
proof -
  from generateSite_exit_0[OF assms] obtain lt rt it loaded where
    a: "emptyDir_ok e" "load_templates e = Inr (lt, rt, it)" "read_all_recipes e = Inr loaded"
    and r: "render_site e lt rt it loaded (empty_dir s0) = (s', None)"
    by (rule try_body_success)
  from r obtain sorted s1 s2 where
    "array_sort (compare_headline (localeCompare e)) loaded = Inr sorted"
    "generate_pages e lt rt sorted sorted (empty_dir s0) = (s1, None)"
    "generate_index e lt it sorted s1 = (s2, None)"
    "copy_static e s2 = (s', None)"
    by (rule render_site_success)
  with that a show ?thesis by blast
qed

lemmas run_defs =
  generateSite_def try_body_def render_site_def copy_static_def copy_images_def
  generate_index_def read_all_recipes_def load_templates_def array_sort_def
  compare_headline_def get_prop_def ToString_opt_def page_context_def index_context_def
  write_page_def console_log_def console_warn_def console_error_def put_file_def
  empty_dir_def ensure_dir_def own_props_def endsWith_def assetsToCopy_def readdir_def
  Let_def

lemmas sample_defs =
  sample_env_def sample_env_images_def sample_env_malformed_def sample_readJson_def apple_def bread_def
  sample_layout_def sample_recipe_def sample_index_def nav_slugs_def render_prop_def
  stale_site_def crumb_def sample_env_no_headline_def sample_env_one_record_def
  sample_env_empty_def loaf_x_def loaf_y_def twins_env_def twins_base_def dill_def rye_one_def rye_two_def
  sample_env_first_no_headline_def sample_env_shared_slug_def
  empty_site_def

section \<open>The claims about static assets\<close>

text \<open>
  C10. Once \<^verbatim>\<open>ensureDir\<close> has returned, the output has an \<^verbatim>\<open>images\<close>
  subdirectory however the asset-copy step goes on, whether or not the images source
  directory exists; when it does not exist the step puts no file under
  \<^verbatim>\<open>images/\<close> and, if it completes, has logged the warning. A build that exits
  with status 0 has the subdirectory.
\<close>

theorem images_subdir_created_unconditionally:
  assumes "ensureDir_ok e" and "copy_static e s = (s', r)"
  shows "''images'' \<in> dirs s' \<and>
         (imagesDir e = Absent \<longrightarrow>
            (\<forall>n. files s' (''images/'' @ n) = files s (''images/'' @ n)) \<and>
            (r = None \<longrightarrow>
               Warn ''Root images directory not found, skipped copying images from there.''
                 \<in> set (console s'))) \<and>
         (\<forall>s0 sf. generateSite e s0 = (sf, 0) \<longrightarrow> ''images'' \<in> dirs sf)"
proof (intro conjI impI allI)
  from copy_static_dirs[OF assms] show "''images'' \<in> dirs s'" by simp
next
  fix n
  assume absent: "imagesDir e = Absent"
  from assms(2) show "files s' (''images/'' @ n) = files s (''images/'' @ n)"
  proof (cases rule: copy_static_cases)
    case ensure
    then show ?thesis by simp
  next
    case (assets err)
    from copy_assets_other[OF assets(2) images_not_asset] show ?thesis
      by (simp add: effect_fields)
  next
    case (images s1 err)
    with absent show ?thesis by (simp add: copy_images_absent)
  next
    case (complete s1 s2)
    from complete(3) absent
    have "s2 = console_warn ''Root images directory not found, skipped copying images from there.'' s1"
      by (simp add: copy_images_absent)
    with copy_assets_other[OF complete(2) images_not_asset] complete(4) show ?thesis
      by (simp add: effect_fields)
  qed
next
  assume absent: "imagesDir e = Absent" and "r = None"
  with assms(2) have "copy_static e s = (s', None)" by simp
  then show "Warn ''Root images directory not found, skipped copying images from there.''
               \<in> set (console s')"
  proof (cases rule: copy_static_cases)
    case (complete s1 s2)
    from complete(3) absent
    have "s2 = console_warn ''Root images directory not found, skipped copying images from there.'' s1"
      by (simp add: copy_images_absent)
    with complete(4) show ?thesis by (simp add: effect_fields)
  qed simp_all
next
  fix s0 sf
  assume "generateSite e s0 = (sf, 0)"
  then obtain s2 where c: "copy_static e s2 = (sf, None)"
    by (rule generateSite_success)
  then have "ensureDir_ok e" by (cases rule: copy_static_cases) simp_all
  from copy_static_dirs[OF this c] show "''images'' \<in> dirs sf" by simp
qed

theorem images_subdir_created_unconditionally_witness:
  "ensureDir_ok sample_env \<and> imagesDir sample_env = Absent \<and>
   ''images'' \<in> dirs (fst (copy_static sample_env empty_site)) \<and>
   files (fst (copy_static sample_env empty_site)) ''images/loaf.png'' = None"
proof -
  have ok: "ensureDir_ok sample_env" and absent: "imagesDir sample_env = Absent"
    by (simp_all add: sample_env_def)
  have run: "copy_static sample_env empty_site =
               (fst (copy_static sample_env empty_site), snd (copy_static sample_env empty_site))"
    by simp
  have "files empty_site (''images/'' @ ''loaf.png'') = None" by (simp add: empty_site_def)
  with images_subdir_created_unconditionally[OF ok run] absent ok show ?thesis
    by (metis append_Cons append_Nil)
qed

text \<open>
  C7. When the asset-copy step completes, the output has the \<^verbatim>\<open>images\<close>
  subdirectory; if the images source directory exists, every entry of it is at
  \<^verbatim>\<open>images/<name>\<close> in the output with the same bytes and its line is logged; if it
  does not exist the warning is logged. An absent images directory never raises an
  error, and nothing is copied when the subdirectory could not be made. The output of a
  build that exits with status 0 is what such a completed asset-copy step left.
\<close>

theorem images_directory_copied:
  "(\<forall>s'. copy_static e s = (s', None) \<longrightarrow>
      ''images'' \<in> dirs s' \<and>
      (\<forall>es. imagesDir e = Entries es \<longrightarrow> distinct (map fst es) \<longrightarrow>
         (\<forall>(n, bytes)\<in>set es.
            files s' (''images/'' @ n) = Some bytes \<and>
            Log (''Copied image: images/'' @ n) \<in> set (console s'))) \<and>
      (imagesDir e = Absent \<longrightarrow>
         Warn ''Root images directory not found, skipped copying images from there.''
           \<in> set (console s'))) \<and>
   (imagesDir e = Absent \<longrightarrow> (\<forall>s1. snd (copy_images e s1) = None)) \<and>
   (\<not> ensureDir_ok e \<longrightarrow> copy_static e s = (s, Some EnsureDirError)) \<and>
   (\<forall>s0 sf. generateSite e s0 = (sf, 0) \<longrightarrow> (\<exists>s2. copy_static e s2 = (sf, None)))"
proof (intro conjI allI impI)
  fix s'
  assume c: "copy_static e s = (s', None)"
  then have ok: "ensureDir_ok e" by (cases rule: copy_static_cases) simp_all
  from copy_static_dirs[OF ok c] show "''images'' \<in> dirs s'" by simp
next
  fix s' es
  assume c: "copy_static e s = (s', None)"
    and es: "imagesDir e = Entries es" and d: "distinct (map fst es)"
  from c obtain s1 s2 where
    i: "copy_images e s1 = (s2, None)" and
    s': "s' = console_log ''Static site generation complete!'' s2"
    by (cases rule: copy_static_cases) simp_all
  from i es have f: "copy_image_files e es s1 = (s2, None)" by (simp add: copy_images_def)
  show "\<forall>(n, bytes)\<in>set es.
          files s' (''images/'' @ n) = Some bytes \<and>
          Log (''Copied image: images/'' @ n) \<in> set (console s')"
  proof (clarify, intro conjI)
    fix n bytes
    assume m: "(n, bytes) \<in> set es"
    from copy_image_files_copied[OF f d m] s'
    show "files s' (''images/'' @ n) = Some bytes"
      and "Log (''Copied image: images/'' @ n) \<in> set (console s')"
      by (simp_all add: effect_fields)
  qed
next
  fix s'
  assume c: "copy_static e s = (s', None)" and absent: "imagesDir e = Absent"
  from c obtain s1 s2 where
    i: "copy_images e s1 = (s2, None)" and
    s': "s' = console_log ''Static site generation complete!'' s2"
    by (cases rule: copy_static_cases) simp_all
  from i absent
  have "s2 = console_warn ''Root images directory not found, skipped copying images from there.'' s1"
    by (simp add: copy_images_absent)
  with s' show "Warn ''Root images directory not found, skipped copying images from there.''
                  \<in> set (console s')"
    by (simp add: effect_fields)
next
  fix s1
  assume "imagesDir e = Absent"
  then show "snd (copy_images e s1) = None" by (simp add: copy_images_absent)
next
  assume "\<not> ensureDir_ok e"
  then show "copy_static e s = (s, Some EnsureDirError)" by (simp add: copy_static_def)
next
  fix s0 sf
  assume "generateSite e s0 = (sf, 0)"
  then obtain s2 where "copy_static e s2 = (sf, None)" by (rule generateSite_success)
  then show "\<exists>s2. copy_static e s2 = (sf, None)" by blast
qed

theorem images_directory_copied_witness:
  "imagesDir sample_env_images = Entries [(''loaf.png'', ''PNG1''), (''bun.png'', ''PNG2'')] \<and>
   snd (copy_static sample_env_images empty_site) = None \<and>
   ''images'' \<in> dirs (fst (copy_static sample_env_images empty_site)) \<and>
   files (fst (copy_static sample_env_images empty_site)) ''images/bun.png'' = Some ''PNG2''"
proof -
  let ?es = "[(''loaf.png'', ''PNG1''), (''bun.png'', ''PNG2'')]"
  have es: "imagesDir sample_env_images = Entries ?es"
    by (simp add: sample_env_images_def)
  have d: "distinct (map fst ?es)" by simp
  have n: "snd (copy_static sample_env_images empty_site) = None"
    by (simp add: run_defs sample_defs)
  then have run: "copy_static sample_env_images empty_site =
                    (fst (copy_static sample_env_images empty_site), None)"
    by (simp add: prod_eq_iff)
  from images_directory_copied[of sample_env_images empty_site] run es d
  have "''images'' \<in> dirs (fst (copy_static sample_env_images empty_site))"
    and "\<forall>(n, bytes)\<in>set ?es.
           files (fst (copy_static sample_env_images empty_site)) (''images/'' @ n) = Some bytes \<and>
           Log (''Copied image: images/'' @ n)
             \<in> set (console (fst (copy_static sample_env_images empty_site)))"
    by blast+
  with es n show ?thesis by simp
qed

lemma copy_images_other:
  assumes "copy_images e t1 = (t2, r)" and "\<forall>n. k \<noteq> ''images/'' @ n"
  shows "files t2 k = files t1 k"
proof (cases "imagesDir e")
  case Absent
  with assms(1) show ?thesis by (auto simp: copy_images_absent effect_fields)
next
  case Unreadable
  with assms(1) show ?thesis by (auto simp: copy_images_def)
next
  case (Entries es)
  with assms(1) have "copy_image_files e es t1 = (t2, r)" by (simp add: copy_images_def)
  moreover from assms(2) have "\<forall>n\<in>fst ` set es. k \<noteq> ''images/'' @ n" by blast
  ultimately show ?thesis by (rule copy_image_files_other)
qed

text \<open>
  C5. Provided no copy of a file that is there fails, the loop over the manifest ends
  without an error; every manifest asset found at the project root is then in the output
  under its name with the same bytes and its success line is logged, and for every
  manifest asset not found the warning is logged and the output is left as it was. A
  build that exits with status 0 has every manifest asset that was found in its output,
  whichever others were missing.
\<close>

theorem manifest_assets_copied_or_skipped:
  assumes "\<forall>a\<in>set assetsToCopy. rootFiles e a \<noteq> None \<longrightarrow> copy_ok e a"
  shows "snd (copy_assets e assetsToCopy s) = None \<and>
         (\<forall>a\<in>set assetsToCopy.
            case rootFiles e a of
              Some bytes \<Rightarrow>
                files (fst (copy_assets e assetsToCopy s)) a = Some bytes \<and>
                Log (''Copied: '' @ a) \<in> set (console (fst (copy_assets e assetsToCopy s)))
            | None \<Rightarrow>
                files (fst (copy_assets e assetsToCopy s)) a = files s a \<and>
                Warn (''Asset not found, skipped: '' @ a)
                  \<in> set (console (fst (copy_assets e assetsToCopy s)))) \<and>
         (\<forall>s0 s'. generateSite e s0 = (s', 0) \<longrightarrow>
            (\<forall>a\<in>set assetsToCopy. rootFiles e a \<noteq> None \<longrightarrow> files s' a = rootFiles e a))"
proof -
  from copy_assets_succeeds[OF assms] obtain s' where
    run: "copy_assets e assetsToCopy s = (s', None)" by blast
  have each: "case rootFiles e a of
          Some bytes \<Rightarrow> files s' a = Some bytes \<and> Log (''Copied: '' @ a) \<in> set (console s')
        | None \<Rightarrow> files s' a = files s a \<and>
                   Warn (''Asset not found, skipped: '' @ a) \<in> set (console s')"
    if a: "a \<in> set assetsToCopy" for a
    using copy_assets_files[OF run, of a] copy_assets_logged[OF run a] a
    by (cases "rootFiles e a") simp_all
  have final: "files sf a = rootFiles e a"
    if g: "generateSite e s0 = (sf, 0)" and a: "a \<in> set assetsToCopy" and f: "rootFiles e a \<noteq> None"
    for s0 sf a
  proof -
    from g obtain s2 where c: "copy_static e s2 = (sf, None)" by (rule generateSite_success)
    from c obtain t1 t2 where
      ca: "copy_assets e assetsToCopy (ensure_dir ''images'' s2) = (t1, None)" and
      ci: "copy_images e t1 = (t2, None)" and
      sf: "sf = console_log ''Static site generation complete!'' t2"
      by (cases rule: copy_static_cases) simp_all
    from copy_assets_files[OF ca, of a] a f have "files t1 a = rootFiles e a" by simp
    moreover have "\<forall>n. a \<noteq> ''images/'' @ n" using images_not_asset a by metis
    from copy_images_other[OF ci this] have "files t2 a = files t1 a" .
    ultimately show ?thesis using sf by (simp add: effect_fields)
  qed
  show ?thesis unfolding run fst_conv snd_conv using each final by blast
qed

theorem manifest_assets_copied_or_skipped_witness:
  "snd (copy_assets sample_env assetsToCopy empty_site) = None \<and>
   rootFiles sample_env ''bps.css'' = Some ''body {}'' \<and>
   files (fst (copy_assets sample_env assetsToCopy empty_site)) ''bps.css'' = Some ''body {}'' \<and>
   rootFiles sample_env ''CNAME'' = None \<and>
   Warn ''Asset not found, skipped: CNAME''
     \<in> set (console (fst (copy_assets sample_env assetsToCopy empty_site)))"
proof -
  have h: "\<forall>a\<in>set assetsToCopy. rootFiles sample_env a \<noteq> None \<longrightarrow> copy_ok sample_env a"
    by (simp add: sample_env_def)
  have css: "rootFiles sample_env ''bps.css'' = Some ''body {}''"
    and cname: "rootFiles sample_env ''CNAME'' = None"
    by (simp_all add: sample_env_def)
  have m: "''bps.css'' \<in> set assetsToCopy" "''CNAME'' \<in> set assetsToCopy"
    by (simp_all add: assetsToCopy_def)
  from manifest_assets_copied_or_skipped[OF h, of empty_site] m css cname
  show ?thesis by fastforce
qed

section \<open>Loading, sorting and rendering: what each step keeps\<close>


lemma load_records_malformed:
  "f \<in> set fs \<Longrightarrow> endsWith f ''.jsonld'' \<Longrightarrow> readJson e f = None \<Longrightarrow>
   \<exists>g\<in>set fs. readJson e g = None \<and> load_records e acc fs = Inl (ParseError g)"
proof (induction fs arbitrary: acc)
  case Nil
  then show ?case by simp
next
  case (Cons h fs)
  show ?case
  proof (cases "endsWith h ''.jsonld''")
    case False
    with Cons.prems have "f \<in> set fs" by auto
    from Cons.IH[OF this Cons.prems(2,3)] False show ?thesis by simp
  next
    case jsonld: True
    show ?thesis
    proof (cases "readJson e h")
      case None
      with jsonld show ?thesis by simp
    next
      case (Some content)
      with Cons.prems have "f \<in> set fs" by auto
      from Cons.IH[OF this Cons.prems(2,3)] jsonld Some show ?thesis by simp
    qed
  qed
qed

lemma insert_sorted_mset:
  "insert_sorted c p ys = Inr zs \<Longrightarrow> mset zs = add_mset p (mset ys)"
proof (induction ys arbitrary: zs)
  case Nil
  then show ?case by auto
next
  case (Cons y ys)
  from Cons.prems obtain n where n: "c p y = Inr n" by (cases "c p y") simp_all
  show ?case
  proof (cases "n < 0")
    case True
    with Cons.prems n show ?thesis by auto
  next
    case False
    with Cons.prems n obtain ws where w: "insert_sorted c p ys = Inr ws" and z: "zs = y # ws"
      by (cases "insert_sorted c p ys") auto
    from Cons.IH[OF w] z show ?thesis by simp
  qed
qed

lemma sort_from_mset:
  "sort_from c placed ps = Inr zs \<Longrightarrow> mset zs = mset placed + mset ps"
proof (induction ps arbitrary: placed)
  case Nil
  then show ?case by simp
next
  case (Cons p ps)
  from Cons.prems obtain placed' where i: "insert_sorted c p placed = Inr placed'"
    by (cases "insert_sorted c p placed") simp_all
  with Cons.prems have "sort_from c placed' ps = Inr zs" by simp
  from Cons.IH[OF this] insert_sorted_mset[OF i] show ?case by simp
qed

lemma array_sort_mset: "array_sort c xs = Inr ys \<Longrightarrow> mset ys = mset xs"
  using sort_from_mset[of c "[]" xs ys] by (simp add: array_sort_def)

lemma generate_pages_step:
  assumes "generate_pages e lt rt all (r # rs) s = (s', None)"
  obtains body html where
    "rt r = Some body"
    "lt (JObj (page_context r body all)) = Some html"
    "page_name r \<noteq> []"
    "writeFile_ok e (page_name r)"
    "generate_pages e lt rt all rs (write_page (page_name r) html s) = (s', None)"
proof -
  from assms obtain body where b: "rt r = Some body"
    by (cases "rt r") simp_all
  from assms b obtain html where h: "lt (JObj (page_context r body all)) = Some html"
    by (cases "lt (JObj (page_context r body all))") simp_all
  from assms b h obtain slug where g: "get_prop r ''slug'' = Inr slug"
    by (cases "get_prop r ''slug''") simp_all
  from assms b h g obtain stem where t: "ToString_opt slug = Inr stem"
    by (cases "ToString_opt slug") simp_all
  from g t have n: "page_name r = stem @ ''.html''" by (simp add: page_name_def)
  from assms b h g t have w: "writeFile_ok e (stem @ ''.html'')"
    by (cases "writeFile_ok e (stem @ ''.html'')") (simp_all add: Let_def)
  from assms b h g t w
  have "generate_pages e lt rt all rs (write_page (stem @ ''.html'') html s) = (s', None)"
    by (simp add: Let_def)
  with that[of body html] b h n w show ?thesis by simp
qed

lemma is_generated_line_simps:
  "is_generated_line (Log (''Generated: '' @ n))"
  "\<not> is_generated_line (Log (''Copied: '' @ n))"
  "\<not> is_generated_line (Log (''Copied image: images/'' @ n))"
  "\<not> is_generated_line (Log ''Static site generation complete!'')"
  "\<not> is_generated_line (Warn m)"
  "\<not> is_generated_line (ErrorLog err)"
  by (simp_all add: is_generated_line_def)


lemma generate_pages_rendered:
  "generate_pages e lt rt all rs s = (s', None) \<Longrightarrow> r \<in> set rs \<Longrightarrow>
   \<exists>body html. rt r = Some body \<and> lt (JObj (page_context r body all)) = Some html"
proof (induction rs arbitrary: s)
  case Nil
  then show ?case by simp
next
  case (Cons x xs)
  from Cons.prems(1) obtain body html where
    b: "rt x = Some body" "lt (JObj (page_context x body all)) = Some html" and
    step: "generate_pages e lt rt all xs (write_page (page_name x) html s) = (s', None)"
    by (rule generate_pages_step)
  show ?case
  proof (cases "r = x")
    case True
    with b show ?thesis by blast
  next
    case False
    with Cons.prems(2) have "r \<in> set xs" by simp
    from Cons.IH[OF step this] show ?thesis .
  qed
qed

lemma generate_index_success:
  assumes "generate_index e lt it all s = (s', None)"
  obtains body html where
    "it (JObj []) = Some body"
    "lt (JObj (index_context body all)) = Some html"
    "writeFile_ok e ''index.html''"
    "s' = write_page ''index.html'' html s"
proof -
  from assms obtain body where b: "it (JObj []) = Some body"
    by (cases "it (JObj [])") (simp_all add: generate_index_def)
  from assms b obtain html where h: "lt (JObj (index_context body all)) = Some html"
    by (cases "lt (JObj (index_context body all))") (simp_all add: generate_index_def)
  from assms b h have w: "writeFile_ok e ''index.html''"
    by (cases "writeFile_ok e ''index.html''") (simp_all add: generate_index_def)
  from assms b h w have "s' = write_page ''index.html'' html s"
    by (simp add: generate_index_def)
  with that b h w show ?thesis by blast
qed

lemma copy_assets_lines:
  "copy_assets e as s = (s', r) \<Longrightarrow>
   filter is_generated_line (console s') = filter is_generated_line (console s)"
proof (induction as arbitrary: s)
  case Nil
  then show ?case by simp
next
  case (Cons a as)
  show ?case
  proof (cases "rootFiles e a")
    case None
    with Cons.prems
    have "copy_assets e as (console_warn (''Asset not found, skipped: '' @ a) s) = (s', r)"
      by simp
    from Cons.IH[OF this] show ?thesis
      by (simp add: effect_fields is_generated_line_simps del: append.simps)
  next
    case (Some bytes)
    show ?thesis
    proof (cases "copy_ok e a")
      case True
      with Cons.prems Some
      have "copy_assets e as (console_log (''Copied: '' @ a) (put_file a bytes s)) = (s', r)"
        by simp
      from Cons.IH[OF this] show ?thesis
        by (simp add: effect_fields is_generated_line_simps del: append.simps)
    next
      case False
      with Cons.prems Some show ?thesis by simp
    qed
  qed
qed

lemma copy_image_files_lines:
  "copy_image_files e es s = (s', r) \<Longrightarrow>
   filter is_generated_line (console s') = filter is_generated_line (console s)"
proof (induction es arbitrary: s)
  case Nil
  then show ?case by simp
next
  case (Cons x xs)
  obtain m c where x: "x = (m, c)" by (cases x)
  show ?case
  proof (cases "copy_ok e (''images/'' @ m)")
    case True
    with Cons.prems x
    have "copy_image_files e xs
            (console_log (''Copied image: images/'' @ m) (put_file (''images/'' @ m) c s)) = (s', r)"
      by simp
    from Cons.IH[OF this] show ?thesis
      by (simp add: effect_fields is_generated_line_simps del: append.simps)
  next
    case False
    with Cons.prems x show ?thesis by simp
  qed
qed

lemma copy_images_lines:
  "copy_images e s = (s', r) \<Longrightarrow>
   filter is_generated_line (console s') = filter is_generated_line (console s)"
  by (cases "imagesDir e")
    (auto simp: copy_images_def effect_fields is_generated_line_simps
      dest: copy_image_files_lines)

lemma copy_static_lines:
  assumes "copy_static e s = (s', r)"
  shows "filter is_generated_line (console s') = filter is_generated_line (console s)"
  using assms
proof (cases rule: copy_static_cases)
  case ensure
  then show ?thesis by simp
next
  case (assets err)
  from copy_assets_lines[OF assets(2)] show ?thesis by (simp add: effect_fields)
next
  case (images s1 err)
  from copy_assets_lines[OF images(2)] copy_images_lines[OF images(3)]
  show ?thesis by (simp add: effect_fields)
next
  case (complete s1 s2)
  from copy_assets_lines[OF complete(2)] copy_images_lines[OF complete(3)] complete(4)
  show ?thesis by (simp add: effect_fields is_generated_line_simps)
qed

section \<open>The claims about loading and rendering\<close>

text \<open>
  C4. If some entry of the data directory named \<^verbatim>\<open>*.jsonld\<close> does not parse, the
  process exits with status 1; the console has gained exactly one line, the error; and
  the output directory is as the step before the failure left it: emptied (or untouched
  when emptying it was what failed), with no page written. When the directory was
  emptied and the templates were read, the error logged is the parse error of a data
  file that does not parse.
\<close>

theorem malformed_data_file_aborts:
  assumes "recipesDir_entries e = Some fs" and "f \<in> set fs" and "endsWith f ''.jsonld''"
    and "readJson e f = None"
  shows "\<exists>err. generateSite e s0 =
                 (console_error err (if emptyDir_ok e then empty_dir s0 else s0), 1) \<and>
               (emptyDir_ok e \<longrightarrow> (\<exists>t. load_templates e = Inr t) \<longrightarrow>
                  (\<exists>g\<in>set fs. readJson e g = None \<and> err = ParseError g))"
proof (cases "emptyDir_ok e")
  case False
  then have "generateSite e s0 = (console_error EmptyDirError s0, 1)"
    by (simp add: generateSite_def try_body_def)
  with False show ?thesis by auto
next
  case ok: True
  from assms(2) have "f \<in> set (readdir fs)" by (simp add: readdir_def)
  from load_records_malformed[OF this assms(3,4), of "[]"] obtain g where
    g: "g \<in> set fs" "readJson e g = None"
      "load_records e [] (readdir fs) = Inl (ParseError g)"
    by (auto simp: readdir_def)
  with assms(1) have r: "read_all_recipes e = Inl (ParseError g)"
    by (simp add: read_all_recipes_def)
  show ?thesis
  proof (cases "load_templates e")
    case (Inl err)
    with ok have "generateSite e s0 = (console_error err (empty_dir s0), 1)"
      by (simp add: generateSite_def try_body_def)
    with ok Inl show ?thesis by auto
  next
    case (Inr t)
    obtain lt rt it where "t = (lt, rt, it)" by (cases t)
    with Inr ok r
    have "generateSite e s0 = (console_error (ParseError g) (empty_dir s0), 1)"
      by (simp add: generateSite_def try_body_def)
    with ok g show ?thesis by auto
  qed
qed

theorem malformed_data_file_aborts_witness:
  "recipesDir_entries sample_env_malformed = Some [''a.jsonld'', ''bad.jsonld'', ''b.jsonld''] \<and>
   endsWith ''bad.jsonld'' ''.jsonld'' \<and>
   readJson sample_env_malformed ''bad.jsonld'' = None \<and>
   snd (generateSite sample_env_malformed stale_site) = 1 \<and>
   files (fst (generateSite sample_env_malformed stale_site)) = Map.empty \<and>
   console (fst (generateSite sample_env_malformed stale_site)) = [ErrorLog (ParseError ''bad.jsonld'')]"
proof -
  let ?fs = "[''a.jsonld'', ''bad.jsonld'', ''b.jsonld'']"
  have fs: "recipesDir_entries sample_env_malformed = Some ?fs"
    and bad: "readJson sample_env_malformed ''bad.jsonld'' = None"
    and ok: "emptyDir_ok sample_env_malformed"
    and a: "readJson sample_env_malformed ''a.jsonld'' \<noteq> None"
    and b: "readJson sample_env_malformed ''b.jsonld'' \<noteq> None"
    by (simp_all add: sample_defs)
  have m: "''bad.jsonld'' \<in> set ?fs" by simp
  have j: "endsWith ''bad.jsonld'' ''.jsonld''" by (simp add: endsWith_def)
  have t: "\<exists>t. load_templates sample_env_malformed = Inr t"
    by (simp add: load_templates_def sample_defs)
  from malformed_data_file_aborts[OF fs m j bad, of stale_site] ok t a b
  have "generateSite sample_env_malformed stale_site =
          (console_error (ParseError ''bad.jsonld'') (empty_dir stale_site), 1)"
    by auto
  with fs j bad show ?thesis by (simp add: effect_fields stale_site_def)
qed



section \<open>Properties of the sort\<close>

lemma ToString_error:
  "ToString v = Inl err \<Longrightarrow> err = TypeError"
  "join_elements vs = Inl err \<Longrightarrow> err = TypeError"
  by (induction v and vs rule: ToString_join_elements.induct)
    (auto split: sum.splits if_splits)

lemma ToString_opt_error: "ToString_opt h = Inl err \<Longrightarrow> err = TypeError"
  by (cases h) (auto simp: ToString_opt_def dest: ToString_error)

lemma get_prop_error: "get_prop v k = Inl err \<Longrightarrow> err = TypeError"
  by (cases v) (simp_all add: get_prop_def)

lemma compare_headline_cases:
  "compare_headline lc p y =
     (if has_string_headline p \<and> comparable_argument y
      then Inr (lc (headline_key p) (headline_key y))
      else Inl TypeError)"
proof (cases "get_prop p ''headline''")
  case (Inl err)
  with get_prop_error[OF Inl] show ?thesis
    by (simp add: compare_headline_def has_string_headline_def)
next
  case (Inr ph)
  show ?thesis
  proof (cases "get_prop y ''headline''")
    case (Inl err)
    with get_prop_error[OF Inl] Inr show ?thesis
      by (simp add: compare_headline_def comparable_argument_def
          split: option.splits json.splits)
  next
    case yh: (Inr yh)
    show ?thesis
    proof (cases "ToString_opt yh")
      case (Inl err)
      with ToString_opt_error[OF Inl] Inr yh show ?thesis
        by (simp add: compare_headline_def comparable_argument_def
            split: option.splits json.splits)
    next
      case (Inr t)
      with \<open>get_prop p ''headline'' = Inr ph\<close> yh show ?thesis
        by (simp add: compare_headline_def has_string_headline_def headline_key_def
            comparable_argument_def ToString_opt_def split: option.splits json.splits)
    qed
  qed
qed


lemma consistent_sym: "consistent_compare lc \<Longrightarrow> (lc a b < 0) = (0 < lc b a)"
  by (simp add: consistent_compare_def)

lemma consistent_trans:
  assumes "consistent_compare lc" and "lc a b \<le> 0" and "lc b c \<le> 0"
  shows "lc a c \<le> 0"
proof -
  from assms(1) have "\<forall>a b c. lc a b \<le> 0 \<longrightarrow> lc b c \<le> 0 \<longrightarrow> lc a c \<le> 0"
    by (simp add: consistent_compare_def)
  then have "lc a b \<le> 0 \<longrightarrow> lc b c \<le> 0 \<longrightarrow> lc a c \<le> 0"
    by (elim allE)
  with assms(2,3) show ?thesis by simp
qed

lemma consistent_flip: "consistent_compare lc \<Longrightarrow> \<not> lc a b < 0 \<Longrightarrow> lc b a \<le> 0"
  using consistent_sym[of lc a b] by simp

lemma consistent_less: "consistent_compare lc \<Longrightarrow> lc a b < 0 \<Longrightarrow> \<not> lc b a \<le> 0"
  using consistent_sym[of lc a b] by simp

lemma consistent_zero: "consistent_compare lc \<Longrightarrow> lc a b = 0 \<Longrightarrow> lc b a = 0"
  using consistent_sym[of lc a b] consistent_sym[of lc b a]
  by (cases "lc b a < 0"; cases "0 < lc b a"; simp)

lemma consistent_refl: "consistent_compare lc \<Longrightarrow> lc a a = 0"
  using consistent_sym[of lc a a] by (cases "lc a a < 0"; cases "0 < lc a a"; simp)

lemma insert_sorted_set:
  "insert_sorted c p ys = Inr zs \<Longrightarrow> set zs = insert p (set ys)"
  using insert_sorted_mset[of c p ys zs] by (metis set_mset_add_mset_insert set_mset_mset)

lemma insert_sorted_Cons:
  assumes "insert_sorted (compare_headline lc) p (y # ys) = Inr zs"
  obtains (front) "lc (headline_key p) (headline_key y) < 0" "zs = p # y # ys"
  | (later) ws where "\<not> lc (headline_key p) (headline_key y) < 0"
      "insert_sorted (compare_headline lc) p ys = Inr ws" "zs = y # ws"
proof -
  from assms have c: "compare_headline lc p y = Inr (lc (headline_key p) (headline_key y))"
    by (simp add: compare_headline_cases split: if_splits)
  show ?thesis
  proof (cases "lc (headline_key p) (headline_key y) < 0")
    case True
    with assms c front show ?thesis by simp
  next
    case False
    with assms c obtain ws where "insert_sorted (compare_headline lc) p ys = Inr ws" "zs = y # ws"
      by (cases "insert_sorted (compare_headline lc) p ys") auto
    with False later show ?thesis by simp
  qed
qed

lemma insert_sorted_sorted:
  assumes cc: "consistent_compare lc"
  shows "insert_sorted (compare_headline lc) p ys = Inr zs \<Longrightarrow>
         sorted_wrt (headline_le lc) ys \<Longrightarrow> sorted_wrt (headline_le lc) zs"
proof (induction ys arbitrary: zs)
  case Nil
  then show ?case by auto
next
  case (Cons y ys)
  from Cons.prems(2) have y: "\<forall>z\<in>set ys. headline_le lc y z" and ys: "sorted_wrt (headline_le lc) ys"
    by simp_all
  from Cons.prems(1) show ?case
  proof (cases rule: insert_sorted_Cons)
    case front
    then have py: "headline_le lc p y" by (simp add: headline_le_def)
    have "headline_le lc p z" if "z \<in> set ys" for z
      using consistent_trans[OF cc] py y that unfolding headline_le_def by blast
    with front py Cons.prems(2) show ?thesis by simp
  next
    case (later ws)
    from consistent_flip[OF cc later(1)] have yp: "headline_le lc y p"
      by (simp add: headline_le_def)
    from Cons.IH[OF later(2) ys] have "sorted_wrt (headline_le lc) ws" .
    moreover from insert_sorted_set[OF later(2)] y yp have "\<forall>z\<in>set ws. headline_le lc y z"
      by simp
    ultimately show ?thesis using later(3) by simp
  qed
qed

lemma insert_sorted_stable:
  assumes cc: "consistent_compare lc"
  shows "insert_sorted (compare_headline lc) p ys = Inr zs \<Longrightarrow>
         sorted_wrt (headline_le lc) ys \<Longrightarrow>
         filter (same_headline lc h) zs = filter (same_headline lc h) (ys @ [p])"
proof (induction ys arbitrary: zs)
  case Nil
  then show ?case by auto
next
  case (Cons y ys)
  from Cons.prems(2) have y: "\<forall>z\<in>set ys. headline_le lc y z" and ys: "sorted_wrt (headline_le lc) ys"
    by simp_all
  from Cons.prems(1) show ?case
  proof (cases rule: insert_sorted_Cons)
    case front
    show ?thesis
    proof (cases "same_headline lc h p")
      case False
      with front show ?thesis by simp
    next
      case True
      then have ph: "lc (headline_key p) h = 0" by (simp add: same_headline_def)
      have "\<not> same_headline lc h z" if z: "z \<in> set (y # ys)" for z
      proof
        assume "same_headline lc h z"
        then have zh: "lc (headline_key z) h = 0" by (simp add: same_headline_def)
        from consistent_zero[OF cc ph] have "lc h (headline_key p) \<le> 0" by simp
        with consistent_trans[OF cc, of "headline_key z" h "headline_key p"] zh
        have zp: "lc (headline_key z) (headline_key p) \<le> 0" by simp
        from z y have "lc (headline_key y) (headline_key z) \<le> 0"
          using consistent_refl[OF cc, of "headline_key y"]
          by (auto simp: headline_le_def)
        from consistent_trans[OF cc this zp] consistent_less[OF cc front(1)]
        show False by simp
      qed
      then have ny: "\<not> same_headline lc h y" and "\<forall>z\<in>set ys. \<not> same_headline lc h z"
        by simp_all
      then have nys: "filter (same_headline lc h) ys = []"
        by (simp only: filter_empty_conv)
      from front(2) True ny nys show ?thesis by simp
    qed
  next
    case (later ws)
    from Cons.IH[OF later(2) ys] later(3) show ?thesis by simp
  qed
qed

lemma sort_from_sorted_stable:
  assumes cc: "consistent_compare lc"
  shows "sort_from (compare_headline lc) placed ps = Inr zs \<Longrightarrow>
         sorted_wrt (headline_le lc) placed \<Longrightarrow>
         sorted_wrt (headline_le lc) zs \<and>
         filter (same_headline lc h) zs = filter (same_headline lc h) (placed @ ps)"
proof (induction ps arbitrary: placed)
  case Nil
  then show ?case by simp
next
  case (Cons p ps)
  from Cons.prems(1) obtain placed' where
    i: "insert_sorted (compare_headline lc) p placed = Inr placed'"
    by (cases "insert_sorted (compare_headline lc) p placed") simp_all
  with Cons.prems(1) have s: "sort_from (compare_headline lc) placed' ps = Inr zs" by simp
  from insert_sorted_sorted[OF cc i Cons.prems(2)] have so: "sorted_wrt (headline_le lc) placed'" .
  from Cons.IH[OF s so]
  have a: "sorted_wrt (headline_le lc) zs"
    and b: "filter (same_headline lc h) zs =
            filter (same_headline lc h) placed' @ filter (same_headline lc h) ps"
    by simp_all
  from insert_sorted_stable[OF cc i Cons.prems(2), of h]
  have c: "filter (same_headline lc h) placed' =
           filter (same_headline lc h) placed @ filter (same_headline lc h) [p]"
    by (simp only: filter_append)
  have "filter (same_headline lc h) (placed @ p # ps) =
        filter (same_headline lc h) placed @ filter (same_headline lc h) [p] @
        filter (same_headline lc h) ps"
    by simp
  with a b c show ?case by (simp only: append_assoc)
qed



lemma array_sort_sorted_stable:
  assumes "consistent_compare lc" and "array_sort (compare_headline lc) xs = Inr ys"
  shows "sorted_wrt (headline_le lc) ys"
    and "filter (same_headline lc h) ys = filter (same_headline lc h) xs"
  using sort_from_sorted_stable[OF assms(1), of "[]" xs ys h] assms(2)
  by (simp_all add: array_sort_def)









lemma sample_compare_sym: "(sample_compare a b < 0) = (0 < sample_compare b a)"
  by (induction a b rule: sample_compare.induct) auto

lemma sample_compare_trans:
  "sample_compare a b \<le> 0 \<Longrightarrow> sample_compare b c \<le> 0 \<Longrightarrow> sample_compare a c \<le> 0"
proof (induction a arbitrary: b c)
  case Nil
  then show ?case by (cases c) simp_all
next
  case (Cons x xs)
  from Cons.prems(1) obtain y ys where b: "b = y # ys" by (cases b) auto
  from Cons.prems(2) b obtain z zs where c: "c = z # zs" by (cases c) auto
  from Cons.prems b c Cons.IH[of ys zs] show ?case
    by (auto split: if_splits)
qed

lemma consistent_sample_compare: "consistent_compare sample_compare"
  unfolding consistent_compare_def
  using sample_compare_sym sample_compare_trans by blast

lemma copy_static_keeps_index:
  assumes "copy_static e s = (s', r)"
  shows "files s' ''index.html'' = files s ''index.html''"
proof -
  have na: "''index.html'' \<notin> set assetsToCopy" by (simp add: assetsToCopy_def)
  have im: "files t2 ''index.html'' = files t1 ''index.html''"
    if "copy_images e t1 = (t2, r2)" for t1 t2 r2
  proof (cases "imagesDir e")
    case Absent
    with that show ?thesis by (auto simp: copy_images_absent effect_fields)
  next
    case Unreadable
    with that show ?thesis by (auto simp: copy_images_def)
  next
    case (Entries es)
    with that have "copy_image_files e es t1 = (t2, r2)" by (simp add: copy_images_def)
    moreover have "\<forall>n\<in>fst ` set es. ''index.html'' \<noteq> ''images/'' @ n" by simp
    ultimately show ?thesis by (rule copy_image_files_other)
  qed
  from assms show ?thesis
  proof (cases rule: copy_static_cases)
    case ensure
    then show ?thesis by simp
  next
    case (assets err)
    from copy_assets_other[OF assets(2) na] show ?thesis by (simp add: effect_fields)
  next
    case (images s1 err)
    from copy_assets_other[OF images(2) na] im[OF images(3)] show ?thesis
      by (simp add: effect_fields)
  next
    case (complete s1 s2)
    from copy_assets_other[OF complete(2) na] im[OF complete(3)] complete(4) show ?thesis
      by (simp add: effect_fields)
  qed
qed

section \<open>The claims about the sort\<close>

text \<open>
  C1. Whenever the sort returns, and the locale comparison is a consistent one, the
  collection it returns holds the loaded records, in ascending order of headline, with
  the records of equal headline in the order they were loaded. That collection is the
  \<^verbatim>\<open>recipes\<close> of the layout context of every record page and of the listing page, and
  a build that gets through rendering has rendered the layout on exactly those contexts.
\<close>

theorem navigation_sorted_by_headline:
  assumes "consistent_compare (localeCompare e)"
    and "array_sort (compare_headline (localeCompare e)) loaded = Inr nav"
  shows "sorted_wrt (headline_le (localeCompare e)) nav \<and>
         mset nav = mset loaded \<and>
         (\<forall>h. filter (same_headline (localeCompare e) h) nav =
              filter (same_headline (localeCompare e) h) loaded) \<and>
         (\<forall>r body. map_of (page_context r body nav) ''recipes'' = Some (JArr nav)) \<and>
         (\<forall>ib. map_of (index_context ib nav) ''recipes'' = Some (JArr nav)) \<and>
         (\<forall>lt rt it s s'. render_site e lt rt it loaded s = (s', None) \<longrightarrow>
            (\<forall>x\<in>set nav. \<exists>b. rt x = Some b \<and> lt (JObj (page_context x b nav)) \<noteq> None) \<and>
            (\<exists>ib. it (JObj []) = Some ib \<and>
                  files s' ''index.html'' = lt (JObj (index_context ib nav))))"
proof (intro conjI allI impI)
  from array_sort_sorted_stable(1)[OF assms]
  show "sorted_wrt (headline_le (localeCompare e)) nav" .
  from array_sort_mset[OF assms(2)] show "mset nav = mset loaded" .
  show "filter (same_headline (localeCompare e) h) nav =
        filter (same_headline (localeCompare e) h) loaded" for h
    by (rule array_sort_sorted_stable(2)[OF assms])
  show "map_of (page_context r body nav) ''recipes'' = Some (JArr nav)" for r body
    by (simp add: page_context_def update_conv')
  show "map_of (index_context ib nav) ''recipes'' = Some (JArr nav)" for ib
    by (simp add: index_context_def)
next
  fix lt rt it s s'
  assume "render_site e lt rt it loaded s = (s', None)"
  then obtain nav' s1 s2 where
    srt: "array_sort (compare_headline (localeCompare e)) loaded = Inr nav'" and
    p: "generate_pages e lt rt nav' nav' s = (s1, None)" and
    i: "generate_index e lt it nav' s1 = (s2, None)" and
    c: "copy_static e s2 = (s', None)"
    by (rule render_site_success)
  from srt assms(2) have same: "nav' = nav" by simp
  from generate_pages_rendered[OF p] same
  show "\<forall>x\<in>set nav. \<exists>b. rt x = Some b \<and> lt (JObj (page_context x b nav)) \<noteq> None"
    by fastforce
  from i obtain ib html where
    ib: "it (JObj []) = Some ib" "lt (JObj (index_context ib nav')) = Some html"
    and s2: "s2 = write_page ''index.html'' html s1"
    by (rule generate_index_success)
  from copy_static_keeps_index[OF c] s2 ib(2) same
  have "files s' ''index.html'' = lt (JObj (index_context ib nav))"
    by (simp add: effect_fields)
  with ib(1)
  show "\<exists>ib. it (JObj []) = Some ib \<and>
             files s' ''index.html'' = lt (JObj (index_context ib nav))"
    by blast
qed

theorem navigation_sorted_by_headline_witness:
  "consistent_compare (localeCompare sample_env) \<and>
   array_sort (compare_headline (localeCompare sample_env)) [bread, apple] = Inr [apple, bread] \<and>
   sorted_wrt (headline_le (localeCompare sample_env)) [apple, bread] \<and>
   map_of (index_context ''welcome'' [apple, bread]) ''recipes'' = Some (JArr [apple, bread])"
proof -
  have lc: "localeCompare sample_env = sample_compare" by (simp add: sample_env_def)
  have cc: "consistent_compare (localeCompare sample_env)"
    by (simp only: lc consistent_sample_compare)
  have srt: "array_sort (compare_headline (localeCompare sample_env)) [bread, apple]
               = Inr [apple, bread]"
    by (simp add: lc array_sort_def compare_headline_def get_prop_def ToString_opt_def
        apple_def bread_def)
  from navigation_sorted_by_headline[OF cc srt] cc srt show ?thesis by simp
qed




section \<open>Building without records\<close>

lemma load_records_no_data_files:
  "\<forall>f\<in>set fs. \<not> endsWith f ''.jsonld'' \<Longrightarrow> load_records e acc fs = Inr acc"
  by (induction fs arbitrary: acc) simp_all

lemma copy_image_files_succeeds:
  "\<forall>n\<in>fst ` set es. copy_ok e (''images/'' @ n) \<Longrightarrow> \<exists>s'. copy_image_files e es s = (s', None)"
proof (induction es arbitrary: s)
  case Nil
  then show ?case by simp
next
  case (Cons x xs)
  obtain m c where x: "x = (m, c)" by (cases x)
  from Cons.prems x have ok: "copy_ok e (''images/'' @ m)"
    and rest: "\<forall>n\<in>fst ` set xs. copy_ok e (''images/'' @ n)" by auto
  from Cons.IH[OF rest] obtain s' where
    "copy_image_files e xs
       (console_log (''Copied image: images/'' @ m) (put_file (''images/'' @ m) c s)) = (s', None)"
    by blast
  with x ok show ?case by simp
qed

lemma copy_static_succeeds:
  assumes "ensureDir_ok e"
    and "\<forall>a\<in>set assetsToCopy. rootFiles e a \<noteq> None \<longrightarrow> copy_ok e a"
    and "imagesDir e \<noteq> Unreadable"
    and "\<forall>es. imagesDir e = Entries es \<longrightarrow> (\<forall>n\<in>fst ` set es. copy_ok e (''images/'' @ n))"
  shows "\<exists>s'. copy_static e s = (s', None)"
proof -
  from copy_assets_succeeds[OF assms(2)] obtain s1 where
    a: "copy_assets e assetsToCopy (ensure_dir ''images'' s) = (s1, None)" by blast
  have "\<exists>s2. copy_images e s1 = (s2, None)"
  proof (cases "imagesDir e")
    case Absent
    then show ?thesis by (simp add: copy_images_absent)
  next
    case Unreadable
    with assms(3) show ?thesis by simp
  next
    case (Entries es)
    with assms(4) have "\<forall>n\<in>fst ` set es. copy_ok e (''images/'' @ n)" by simp
    from copy_image_files_succeeds[OF this] Entries show ?thesis
      by (simp add: copy_images_def)
  qed
  then obtain s2 where "copy_images e s1 = (s2, None)" by blast
  with a assms(1) show ?thesis by (simp add: copy_static_def)
qed

lemma copy_static_files:
  assumes "copy_static e s = (s', r)" and "files s' k \<noteq> files s k"
  shows "(k \<in> set assetsToCopy \<and> rootFiles e k \<noteq> None) \<or>
         (\<exists>es n. imagesDir e = Entries es \<and> n \<in> fst ` set es \<and> k = ''images/'' @ n)"
proof -
  have as: "k \<in> set assetsToCopy \<and> rootFiles e k \<noteq> None"
    if "copy_assets e assetsToCopy t = (t1, r1)" "files t1 k \<noteq> files t k" for t t1 r1
  proof -
    have "rootFiles e k \<noteq> None \<and> k \<in> set as"
      if "copy_assets e as t = (t1, r1)" "files t1 k \<noteq> files t k" for as t
      using that
    proof (induction as arbitrary: t)
      case Nil
      then show ?case by simp
    next
      case (Cons a as)
      show ?case
      proof (cases "rootFiles e a")
        case None
        with Cons.prems(1)
        have st: "copy_assets e as (console_warn (''Asset not found, skipped: '' @ a) t) = (t1, r1)"
          by simp
        from Cons.prems(2) have "files t1 k \<noteq> files (console_warn (''Asset not found, skipped: '' @ a) t) k"
          by (simp add: effect_fields)
        from Cons.IH[OF st this] show ?thesis by simp
      next
        case (Some bytes)
        show ?thesis
        proof (cases "copy_ok e a")
          case False
          with Cons.prems Some show ?thesis by simp
        next
          case True
          let ?t = "console_log (''Copied: '' @ a) (put_file a bytes t)"
          from True Cons.prems(1) Some have st: "copy_assets e as ?t = (t1, r1)" by simp
          show ?thesis
          proof (cases "k = a")
            case True
            with Some show ?thesis by simp
          next
            case False
            with Cons.prems(2) have "files t1 k \<noteq> files ?t k" by (simp add: effect_fields)
            from Cons.IH[OF st this] show ?thesis by simp
          qed
        qed
      qed
    qed
    from this[OF that] show ?thesis by simp
  qed
  have im: "\<exists>es n. imagesDir e = Entries es \<and> n \<in> fst ` set es \<and> k = ''images/'' @ n"
    if "copy_images e t1 = (t2, r2)" "files t2 k \<noteq> files t1 k" for t1 t2 r2
  proof (cases "imagesDir e")
    case Absent
    with that show ?thesis by (auto simp: copy_images_absent effect_fields)
  next
    case Unreadable
    with that show ?thesis by (auto simp: copy_images_def)
  next
    case (Entries es)
    with that have c: "copy_image_files e es t1 = (t2, r2)" by (simp add: copy_images_def)
    have "\<not> (\<forall>n\<in>fst ` set es. k \<noteq> ''images/'' @ n)"
      using copy_image_files_other[OF c] that(2) by blast
    with Entries show ?thesis by blast
  qed
  from assms(1) show ?thesis
  proof (cases rule: copy_static_cases)
    case ensure
    with assms(2) show ?thesis by simp
  next
    case (assets err)
    from assms(2) have "files s' k \<noteq> files (ensure_dir ''images'' s) k"
      by (simp add: effect_fields)
    from as[OF assets(2) this] show ?thesis by simp
  next
    case (images s1 err)
    show ?thesis
    proof (cases "files s' k = files s1 k")
      case True
      with assms(2) have "files s1 k \<noteq> files (ensure_dir ''images'' s) k"
        by (simp add: effect_fields)
      from as[OF images(2) this] show ?thesis by simp
    next
      case False
      from im[OF images(3) False] show ?thesis by simp
    qed
  next
    case (complete s1 s2)
    show ?thesis
    proof (cases "files s2 k = files s1 k")
      case True
      with assms(2) complete(4) have "files s1 k \<noteq> files (ensure_dir ''images'' s) k"
        by (simp add: effect_fields)
      from as[OF complete(2) this] show ?thesis by simp
    next
      case False
      from im[OF complete(3) False] show ?thesis by simp
    qed
  qed
qed

section \<open>The claim about an empty collection\<close>

lemma copy_static_found_assets:
  assumes "copy_static e s = (s', None)" and "a \<in> set assetsToCopy" and "rootFiles e a \<noteq> None"
  shows "files s' a = rootFiles e a"
proof -
  from assms(1) obtain t1 t2 where
    ca: "copy_assets e assetsToCopy (ensure_dir ''images'' s) = (t1, None)" and
    ci: "copy_images e t1 = (t2, None)" and
    s': "s' = console_log ''Static site generation complete!'' t2"
    by (cases rule: copy_static_cases) simp_all
  from copy_assets_files[OF ca, of a] assms(2,3) have "files t1 a = rootFiles e a" by simp
  moreover have "\<forall>n. a \<noteq> ''images/'' @ n" using images_not_asset assms(2) by metis
  from copy_images_other[OF ci this] have "files t2 a = files t1 a" .
  ultimately show ?thesis using s' by (simp add: effect_fields)
qed

lemma copy_static_images:
  assumes "copy_static e s = (s', None)" and "imagesDir e = Entries es"
    and "distinct (map fst es)" and "(n, bytes) \<in> set es"
  shows "files s' (''images/'' @ n) = Some bytes"
proof -
  from assms(1) obtain t1 t2 where
    ci: "copy_images e t1 = (t2, None)" and
    s': "s' = console_log ''Static site generation complete!'' t2"
    by (cases rule: copy_static_cases) simp_all
  from ci assms(2) have "copy_image_files e es t1 = (t2, None)" by (simp add: copy_images_def)
  from copy_image_files_copied[OF this assms(3,4)] s' show ?thesis
    by (simp add: effect_fields)
qed

text \<open>
  C6, as the code has it. A data directory without any \<^verbatim>\<open>*.jsonld\<close> entry loads as
  the empty collection, which is no error. A build over it that exits with status 0 has
  generated the listing page and no record page, and its output directory holds
  \<^verbatim>\<open>index.html\<close>, which is the layout rendered on the listing context with no
  records, every manifest asset found at the project root, with its bytes, and every
  file entry of the images directory under \<^verbatim>\<open>images/\<close>, with its bytes; it holds
  nothing else outside \<^verbatim>\<open>images/\<close>, and nothing under it unless the images
  directory exists. The build does exit with status 0 as soon as the steps that do not
  depend on the records succeed: emptying the output, reading the templates, rendering
  and writing the listing page, making the images subdirectory, the copies.
\<close>

theorem empty_collection_builds_listing_only:
  assumes "recipesDir_entries e = Some fs" and "\<forall>f\<in>set fs. \<not> endsWith f ''.jsonld''"
  shows "read_all_recipes e = Inr [] \<and>
         (\<forall>s'. generateSite e s0 = (s', 0) \<longrightarrow>
            filter is_generated_line (console s') =
              filter is_generated_line (console s0) @ [Log ''Generated: index.html''] \<and>
            (\<exists>lt rt it ib html. load_templates e = Inr (lt, rt, it) \<and> it (JObj []) = Some ib \<and>
               lt (JObj (index_context ib [])) = Some html \<and>
               files s' ''index.html'' = Some html) \<and>
            (\<forall>a\<in>set assetsToCopy. rootFiles e a \<noteq> None \<longrightarrow> files s' a = rootFiles e a) \<and>
            (\<forall>es. imagesDir e = Entries es \<longrightarrow> distinct (map fst es) \<longrightarrow>
               (\<forall>(n, bytes)\<in>set es. files s' (''images/'' @ n) = Some bytes)) \<and>
            (\<forall>k. files s' k \<noteq> None \<longrightarrow>
               k = ''index.html'' \<or>
               (k \<in> set assetsToCopy \<and> rootFiles e k \<noteq> None) \<or>
               (imagesDir e \<noteq> Absent \<and> (\<exists>rest. k = ''images/'' @ rest)))) \<and>
         (emptyDir_ok e \<longrightarrow>
          (\<exists>lt rt it ib html. load_templates e = Inr (lt, rt, it) \<and> it (JObj []) = Some ib \<and>
             lt (JObj (index_context ib [])) = Some html) \<longrightarrow>
          writeFile_ok e ''index.html'' \<longrightarrow>
          ensureDir_ok e \<longrightarrow>
          (\<forall>a\<in>set assetsToCopy. rootFiles e a \<noteq> None \<longrightarrow> copy_ok e a) \<longrightarrow>
          imagesDir e \<noteq> Unreadable \<longrightarrow>
          (\<forall>es. imagesDir e = Entries es \<longrightarrow> (\<forall>n\<in>fst ` set es. copy_ok e (''images/'' @ n))) \<longrightarrow>
          snd (generateSite e s0) = 0)"
proof -
  from assms have load: "read_all_recipes e = Inr []"
    by (simp add: read_all_recipes_def readdir_def load_records_no_data_files)
  have srt: "array_sort (compare_headline (localeCompare e)) [] = Inr []"
    by (simp add: array_sort_def)
  have finished:
    "filter is_generated_line (console s') =
       filter is_generated_line (console s0) @ [Log ''Generated: index.html''] \<and>
     (\<exists>lt rt it ib html. load_templates e = Inr (lt, rt, it) \<and> it (JObj []) = Some ib \<and>
        lt (JObj (index_context ib [])) = Some html \<and>
        files s' ''index.html'' = Some html) \<and>
     (\<forall>a\<in>set assetsToCopy. rootFiles e a \<noteq> None \<longrightarrow> files s' a = rootFiles e a) \<and>
     (\<forall>es. imagesDir e = Entries es \<longrightarrow> distinct (map fst es) \<longrightarrow>
        (\<forall>(n, bytes)\<in>set es. files s' (''images/'' @ n) = Some bytes)) \<and>
     (\<forall>k. files s' k \<noteq> None \<longrightarrow>
        k = ''index.html'' \<or>
        (k \<in> set assetsToCopy \<and> rootFiles e k \<noteq> None) \<or>
        (imagesDir e \<noteq> Absent \<and> (\<exists>rest. k = ''images/'' @ rest)))"
    if "generateSite e s0 = (s', 0)" for s'
  proof -
    from that obtain lt rt it loaded nav s1 s2 where
      t: "load_templates e = Inr (lt, rt, it)" and
      l: "read_all_recipes e = Inr loaded" and
      s: "array_sort (compare_headline (localeCompare e)) loaded = Inr nav" and
      p: "generate_pages e lt rt nav nav (empty_dir s0) = (s1, None)" and
      i: "generate_index e lt it nav s1 = (s2, None)" and
      c: "copy_static e s2 = (s', None)"
      by (rule generateSite_success)
    from l load have "loaded = []" by simp
    with s srt have nav: "nav = []" by simp
    with p have s1: "s1 = empty_dir s0" by simp
    from i nav obtain ib html where
      ib: "it (JObj []) = Some ib" "lt (JObj (index_context ib [])) = Some html" and
      s2: "s2 = write_page ''index.html'' html s1"
      by (auto elim: generate_index_success)
    from s1 s2 have f2: "files s2 = [''index.html'' \<mapsto> html]"
      and c2: "console s2 = console s0 @ [Log (''Generated: '' @ ''index.html'')]"
      by (simp_all add: effect_fields)
    from copy_static_lines[OF c] c2
    have a: "filter is_generated_line (console s') =
             filter is_generated_line (console s0) @ [Log ''Generated: index.html'']"
      by (simp add: is_generated_line_def)
    from copy_static_keeps_index[OF c] f2 have "files s' ''index.html'' = Some html" by simp
    with t ib
    have b: "\<exists>lt rt it ib html. load_templates e = Inr (lt, rt, it) \<and> it (JObj []) = Some ib \<and>
        lt (JObj (index_context ib [])) = Some html \<and> files s' ''index.html'' = Some html"
      by blast
    have d: "\<forall>a\<in>set assetsToCopy. rootFiles e a \<noteq> None \<longrightarrow> files s' a = rootFiles e a"
      using copy_static_found_assets[OF c] by blast
    have g: "\<forall>es. imagesDir e = Entries es \<longrightarrow> distinct (map fst es) \<longrightarrow>
        (\<forall>(n, bytes)\<in>set es. files s' (''images/'' @ n) = Some bytes)"
      using copy_static_images[OF c] by blast
    have "k = ''index.html'' \<or>
          (k \<in> set assetsToCopy \<and> rootFiles e k \<noteq> None) \<or>
          (imagesDir e \<noteq> Absent \<and> (\<exists>rest. k = ''images/'' @ rest))"
      if k: "files s' k \<noteq> None" for k
    proof (cases "k = ''index.html''")
      case True
      then show ?thesis by simp
    next
      case False
      with f2 have "files s2 k = None" by simp
      with k have "files s' k \<noteq> files s2 k" by simp
      from copy_static_files[OF c this] show ?thesis by auto
    qed
    with a b d g show ?thesis by blast
  qed
  have succeeds: "snd (generateSite e s0) = 0"
    if ok: "emptyDir_ok e"
      and t: "\<exists>lt rt it ib html. load_templates e = Inr (lt, rt, it) \<and> it (JObj []) = Some ib \<and>
             lt (JObj (index_context ib [])) = Some html"
      and w: "writeFile_ok e ''index.html''"
      and st: "ensureDir_ok e"
        "\<forall>a\<in>set assetsToCopy. rootFiles e a \<noteq> None \<longrightarrow> copy_ok e a"
        "imagesDir e \<noteq> Unreadable"
        "\<forall>es. imagesDir e = Entries es \<longrightarrow> (\<forall>n\<in>fst ` set es. copy_ok e (''images/'' @ n))"
  proof -
    from t obtain lt rt it ib html where
      lt: "load_templates e = Inr (lt, rt, it)" and ib: "it (JObj []) = Some ib" and
      html: "lt (JObj (index_context ib [])) = Some html"
      by blast
    from ib html w
    have i: "generate_index e lt it [] (empty_dir s0) =
               (write_page ''index.html'' html (empty_dir s0), None)"
      by (simp add: generate_index_def)
    from copy_static_succeeds[OF st] obtain s' where
      c: "copy_static e (write_page ''index.html'' html (empty_dir s0)) = (s', None)"
      by blast
    from srt i c have "render_site e lt rt it [] (empty_dir s0) = (s', None)"
      by (simp add: render_site_def)
    with ok lt load have "try_body e s0 = (s', None)" by (simp add: try_body_def)
    then show ?thesis by (simp add: generateSite_def)
  qed
  from load finished succeeds show ?thesis by blast
qed

theorem empty_collection_builds_listing_only_witness:
  "recipesDir_entries sample_env_empty = Some [''notes.txt''] \<and>
   read_all_recipes sample_env_empty = Inr [] \<and>
   snd (generateSite sample_env_empty stale_site) = 0 \<and>
   filter is_generated_line (console (fst (generateSite sample_env_empty stale_site))) =
     [Log ''Generated: index.html''] \<and>
   files (fst (generateSite sample_env_empty stale_site)) ''bps.css'' = Some ''body {}''"
proof -
  have fs: "recipesDir_entries sample_env_empty = Some [''notes.txt'']"
    by (simp add: sample_defs)
  have none: "\<forall>f\<in>set [''notes.txt'']. \<not> endsWith f ''.jsonld''"
    by (simp add: endsWith_def)
  have z: "snd (generateSite sample_env_empty stale_site) = 0"
    by (simp add: run_defs sample_defs)
  then have run: "generateSite sample_env_empty stale_site =
                    (fst (generateSite sample_env_empty stale_site), 0)"
    by (simp add: prod_eq_iff)
  have c0: "filter is_generated_line (console stale_site) = []"
    by (simp add: stale_site_def)
  have css: "''bps.css'' \<in> set assetsToCopy" "rootFiles sample_env_empty ''bps.css'' = Some ''body {}''"
    by (simp_all add: assetsToCopy_def sample_defs)
  note inst = empty_collection_builds_listing_only[OF fs none, of stale_site]
  from inst have "read_all_recipes sample_env_empty = Inr []" by (rule conjunct1)
  moreover from inst run
  have "filter is_generated_line (console (fst (generateSite sample_env_empty stale_site))) =
           filter is_generated_line (console stale_site) @ [Log ''Generated: index.html'']"
    by blast
  moreover from inst run css
  have "files (fst (generateSite sample_env_empty stale_site)) ''bps.css'' = Some ''body {}''"
    by (metis option.distinct(1))
  ultimately show ?thesis using fs z c0 by simp
qed

theorem empty_collection_output_has_assets_too:
  "recipesDir_entries sample_env_empty = Some [''notes.txt''] \<and>
   \<not> endsWith ''notes.txt'' ''.jsonld'' \<and>
   snd (generateSite sample_env_empty empty_site) = 0 \<and>
   files (fst (generateSite sample_env_empty empty_site)) ''index.html'' =
     Some (index_title @ ''|welcome|'') \<and>
   files (fst (generateSite sample_env_empty empty_site)) ''bps.css'' = Some ''body {}''"
proof -
  have "recipesDir_entries sample_env_empty = Some [''notes.txt'']"
    by (simp add: sample_defs)
  moreover have "\<not> endsWith ''notes.txt'' ''.jsonld''"
    by (simp add: endsWith_def)
  moreover have "snd (generateSite sample_env_empty empty_site) = 0"
    by (simp add: run_defs sample_defs)
  moreover have "files (fst (generateSite sample_env_empty empty_site)) ''index.html'' =
     Some (index_title @ ''|welcome|'')"
    by (simp add: run_defs sample_defs)
  moreover have "files (fst (generateSite sample_env_empty empty_site)) ''bps.css'' = Some ''body {}''"
    by (simp add: run_defs sample_defs)
  ultimately show ?thesis by simp
qed

section \<open>Rebuilding\<close>

lemma same_output_effects:
  "same_output s t \<Longrightarrow> same_output (console_log m s) (console_log m' t)"
  "same_output s t \<Longrightarrow> same_output (console_warn m s) (console_warn m' t)"
  "same_output s t \<Longrightarrow> same_output (console_error err s) (console_error err' t)"
  "same_output s t \<Longrightarrow> same_output (put_file p b s) (put_file p b t)"
  "same_output s t \<Longrightarrow> same_output (ensure_dir d s) (ensure_dir d t)"
  "same_output s t \<Longrightarrow> same_output (write_page p b s) (write_page p b t)"
  "same_output (empty_dir s) (empty_dir t)"
  by (simp_all add: same_output_def effect_fields)

lemma same_output_refl: "same_output s s"
  by (simp add: same_output_def)

lemma same_output_trans: "same_output s t \<Longrightarrow> same_output t u \<Longrightarrow> same_output s u"
  by (simp add: same_output_def)

lemma same_output_sym: "same_output s t \<Longrightarrow> same_output t s"
  by (simp add: same_output_def)

lemma generate_pages_same_output:
  "same_output s t \<Longrightarrow>
   same_output (fst (generate_pages e lt rt all rs s)) (fst (generate_pages e lt rt all rs t)) \<and>
   snd (generate_pages e lt rt all rs s) = snd (generate_pages e lt rt all rs t)"
proof (induction rs arbitrary: s t)
  case Nil
  then show ?case by simp
next
  case (Cons r rs)
  show ?case
  proof (cases "rt r")
    case None
    with Cons.prems show ?thesis by simp
  next
    case b: (Some body)
    show ?thesis
    proof (cases "lt (JObj (page_context r body all))")
      case None
      with b Cons.prems show ?thesis by simp
    next
      case h: (Some html)
      show ?thesis
      proof (cases "get_prop r ''slug''")
        case (Inl err)
        with b h Cons.prems show ?thesis by simp
      next
        case (Inr slug)
        show ?thesis
        proof (cases "ToString_opt slug")
          case (Inl err)
          with b h Inr Cons.prems show ?thesis by simp
        next
          case stem: (Inr stem)
          show ?thesis
          proof (cases "writeFile_ok e (stem @ ''.html'')")
            case False
            with b h Inr stem Cons.prems show ?thesis by simp
          next
            case True
            from Cons.prems
            have "same_output (write_page (stem @ ''.html'') html s)
                              (write_page (stem @ ''.html'') html t)"
              by (rule same_output_effects)
            from Cons.IH[OF this] b h Inr stem True show ?thesis by simp
          qed
        qed
      qed
    qed
  qed
qed

lemma generate_index_same_output:
  "same_output s t \<Longrightarrow>
   same_output (fst (generate_index e lt it all s)) (fst (generate_index e lt it all t)) \<and>
   snd (generate_index e lt it all s) = snd (generate_index e lt it all t)"
  by (simp add: generate_index_def same_output_effects split: option.splits)

lemma copy_assets_same_output:
  "same_output s t \<Longrightarrow>
   same_output (fst (copy_assets e as s)) (fst (copy_assets e as t)) \<and>
   snd (copy_assets e as s) = snd (copy_assets e as t)"
proof (induction as arbitrary: s t)
  case Nil
  then show ?case by simp
next
  case (Cons a as)
  show ?case
  proof (cases "rootFiles e a")
    case None
    from Cons.prems
    have "same_output (console_warn (''Asset not found, skipped: '' @ a) s)
                      (console_warn (''Asset not found, skipped: '' @ a) t)"
      by (rule same_output_effects)
    from Cons.IH[OF this] None show ?thesis by simp
  next
    case (Some bytes)
    show ?thesis
    proof (cases "copy_ok e a")
      case False
      with Some Cons.prems show ?thesis by simp
    next
      case True
      from Cons.prems
      have "same_output (console_log (''Copied: '' @ a) (put_file a bytes s))
                        (console_log (''Copied: '' @ a) (put_file a bytes t))"
        by (intro same_output_effects)
      from Cons.IH[OF this] Some True show ?thesis by simp
    qed
  qed
qed

lemma copy_image_files_same_output:
  "same_output s t \<Longrightarrow>
   same_output (fst (copy_image_files e es s)) (fst (copy_image_files e es t)) \<and>
   snd (copy_image_files e es s) = snd (copy_image_files e es t)"
proof (induction es arbitrary: s t)
  case Nil
  then show ?case by simp
next
  case (Cons x xs)
  obtain m c where x: "x = (m, c)" by (cases x)
  show ?case
  proof (cases "copy_ok e (''images/'' @ m)")
    case False
    with x Cons.prems show ?thesis by simp
  next
    case True
    from Cons.prems
    have "same_output
            (console_log (''Copied image: images/'' @ m) (put_file (''images/'' @ m) c s))
            (console_log (''Copied image: images/'' @ m) (put_file (''images/'' @ m) c t))"
      by (intro same_output_effects)
    from Cons.IH[OF this] x True show ?thesis by simp
  qed
qed

lemma copy_images_same_output:
  "same_output s t \<Longrightarrow>
   same_output (fst (copy_images e s)) (fst (copy_images e t)) \<and>
   snd (copy_images e s) = snd (copy_images e t)"
  by (cases "imagesDir e")
    (simp_all add: copy_images_def same_output_effects copy_image_files_same_output)


lemma copy_static_same_output:
  assumes "same_output s t"
  shows "same_output (fst (copy_static e s)) (fst (copy_static e t)) \<and>
         snd (copy_static e s) = snd (copy_static e t)"
proof (cases "ensureDir_ok e")
  case False
  with assms show ?thesis by (simp add: copy_static_def)
next
  case ok: True
  let ?s0 = "ensure_dir ''images'' s" and ?t0 = "ensure_dir ''images'' t"
  from assms have st0: "same_output ?s0 ?t0" by (rule same_output_effects)
  obtain s1 r1 where a: "copy_assets e assetsToCopy ?s0 = (s1, r1)"
    by (cases "copy_assets e assetsToCopy ?s0")
  obtain t1 q1 where b: "copy_assets e assetsToCopy ?t0 = (t1, q1)"
    by (cases "copy_assets e assetsToCopy ?t0")
  from copy_assets_same_output[OF st0, of e assetsToCopy] a b
  have st1: "same_output s1 t1" and q1: "q1 = r1" by simp_all
  show ?thesis
  proof (cases r1)
    case (Some err)
    with ok a b st1 q1 show ?thesis by (simp add: copy_static_def)
  next
    case None
    obtain s2 r2 where c: "copy_images e s1 = (s2, r2)" by (cases "copy_images e s1")
    obtain t2 q2 where d: "copy_images e t1 = (t2, q2)" by (cases "copy_images e t1")
    from copy_images_same_output[OF st1, of e] c d
    have st2: "same_output s2 t2" and q2: "q2 = r2" by simp_all
    show ?thesis
    proof (cases r2)
      case (Some err)
      with ok a b q1 None c d st2 q2 show ?thesis by (simp add: copy_static_def)
    next
      case n2: None
      from st2 have "same_output (console_log ''Static site generation complete!'' s2)
                                 (console_log ''Static site generation complete!'' t2)"
        by (rule same_output_effects)
      with ok a b q1 None c d q2 n2 show ?thesis by (simp add: copy_static_def)
    qed
  qed
qed

lemma render_site_same_output:
  assumes "same_output s t"
  shows "same_output (fst (render_site e lt rt it loaded s)) (fst (render_site e lt rt it loaded t)) \<and>
         snd (render_site e lt rt it loaded s) = snd (render_site e lt rt it loaded t)"
proof (cases "array_sort (compare_headline (localeCompare e)) loaded")
  case (Inl err)
  with assms show ?thesis by (simp add: render_site_def)
next
  case (Inr nav)
  obtain s1 r1 where a: "generate_pages e lt rt nav nav s = (s1, r1)"
    by (cases "generate_pages e lt rt nav nav s")
  obtain t1 q1 where b: "generate_pages e lt rt nav nav t = (t1, q1)"
    by (cases "generate_pages e lt rt nav nav t")
  from generate_pages_same_output[OF assms, of e lt rt nav nav] a b
  have st1: "same_output s1 t1" and q1: "q1 = r1" by simp_all
  show ?thesis
  proof (cases r1)
    case (Some err)
    with Inr a b st1 q1 show ?thesis by (simp add: render_site_def)
  next
    case None
    obtain s2 r2 where c: "generate_index e lt it nav s1 = (s2, r2)"
      by (cases "generate_index e lt it nav s1")
    obtain t2 q2 where d: "generate_index e lt it nav t1 = (t2, q2)"
      by (cases "generate_index e lt it nav t1")
    from generate_index_same_output[OF st1, of e lt it nav] c d
    have st2: "same_output s2 t2" and q2: "q2 = r2" by simp_all
    show ?thesis
    proof (cases r2)
      case (Some err)
      with Inr a b q1 None c d st2 q2 show ?thesis by (simp add: render_site_def)
    next
      case n2: None
      with Inr a b q1 None c d q2 copy_static_same_output[OF st2, of e]
      show ?thesis by (simp add: render_site_def)
    qed
  qed
qed

lemma try_body_same_output:
  assumes "emptyDir_ok e"
  shows "same_output (fst (try_body e s)) (fst (try_body e t)) \<and>
         snd (try_body e s) = snd (try_body e t)"
proof -
  have em: "same_output (empty_dir s) (empty_dir t)" by (rule same_output_effects)
  show ?thesis
  proof (cases "load_templates e")
    case (Inl err)
    with assms em show ?thesis by (simp add: try_body_def)
  next
    case (Inr tpl)
    obtain lt rt it where tpl: "tpl = (lt, rt, it)" by (cases tpl)
    show ?thesis
    proof (cases "read_all_recipes e")
      case (Inl err)
      with assms em Inr tpl show ?thesis by (simp add: try_body_def)
    next
      case l: (Inr loaded)
      with assms Inr tpl render_site_same_output[OF em, of e lt rt it loaded]
      show ?thesis by (simp add: try_body_def)
    qed
  qed
qed

lemma generateSite_of_try_body:
  "try_body e s = (s', r) \<Longrightarrow>
   generateSite e s = (case r of None \<Rightarrow> (s', 0) | Some err \<Rightarrow> (console_error err s', 1))"
  by (cases r) (simp_all add: generateSite_def)

lemma generateSite_same_output:
  assumes "emptyDir_ok e"
  shows "same_output (fst (generateSite e s)) (fst (generateSite e t)) \<and>
         snd (generateSite e s) = snd (generateSite e t)"
proof -
  obtain s' r where a: "try_body e s = (s', r)" by (cases "try_body e s")
  obtain t' q where b: "try_body e t = (t', q)" by (cases "try_body e t")
  from try_body_same_output[OF assms, of s t] a b
  have st: "same_output s' t'" and q: "q = r" by simp_all
  show ?thesis
  proof (cases r)
    case None
    with generateSite_of_try_body[OF a] generateSite_of_try_body[OF b] st q
    show ?thesis by simp
  next
    case (Some err)
    from st have "same_output (console_error err s') (console_error err t')"
      by (rule same_output_effects)
    with Some generateSite_of_try_body[OF a] generateSite_of_try_body[OF b] q
    show ?thesis by simp
  qed
qed

lemma generateSite_emptyDir_fails:
  "\<not> emptyDir_ok e \<Longrightarrow> generateSite e s = (console_error EmptyDirError s, 1)"
  by (simp add: generateSite_def try_body_def)

lemma generateSite_again:
  "same_output (fst (generateSite e (fst (generateSite e s)))) (fst (generateSite e s)) \<and>
   snd (generateSite e (fst (generateSite e s))) = snd (generateSite e s)"
proof (cases "emptyDir_ok e")
  case True
  from generateSite_same_output[OF True] show ?thesis by blast
next
  case False
  then show ?thesis
    by (simp add: generateSite_emptyDir_fails same_output_def effect_fields)
qed


lemma generate_pages_other_listing:
  "generate_pages (e\<lparr>recipesDir_entries := fs\<rparr>) lt rt all rs s = generate_pages e lt rt all rs s"
  by (induction rs arbitrary: s) (simp_all add: Let_def split: option.splits sum.splits)

lemma copy_assets_other_listing:
  "copy_assets (e\<lparr>recipesDir_entries := fs\<rparr>) as s = copy_assets e as s"
  by (induction as arbitrary: s) (simp_all split: option.splits)

lemma copy_image_files_other_listing:
  "copy_image_files (e\<lparr>recipesDir_entries := fs\<rparr>) es s = copy_image_files e es s"
proof (induction es arbitrary: s)
  case Nil
  then show ?case by simp
next
  case (Cons x xs)
  then show ?case by (cases x) simp
qed

lemma load_records_other_listing:
  "load_records (e\<lparr>recipesDir_entries := fs\<rparr>) acc gs = load_records e acc gs"
  by (induction gs arbitrary: acc) (simp_all split: option.splits)

lemma render_site_other_listing:
  "render_site (e\<lparr>recipesDir_entries := fs\<rparr>) lt rt it loaded s = render_site e lt rt it loaded s"
proof -
  have i: "generate_index (e\<lparr>recipesDir_entries := fs\<rparr>) lt it all t = generate_index e lt it all t"
    for all t
    by (simp add: generate_index_def split: option.splits)
  have m: "copy_images (e\<lparr>recipesDir_entries := fs\<rparr>) t = copy_images e t" for t
    by (simp add: copy_images_def copy_image_files_other_listing split: images_dir.splits)
  have c: "copy_static (e\<lparr>recipesDir_entries := fs\<rparr>) t = copy_static e t" for t
    unfolding copy_static_def copy_assets_other_listing m by simp
  show ?thesis
    unfolding render_site_def generate_pages_other_listing i c by simp
qed

lemma readdir_permuted: "mset fs2 = mset fs1 \<Longrightarrow> readdir fs2 = readdir fs1"
  unfolding readdir_def by (metis mset_sort properties_for_sort sorted_sort)

lemma try_body_other_listing:
  "try_body (e\<lparr>recipesDir_entries := Some fs\<rparr>) s =
     (if \<not> emptyDir_ok e then (s, Some EmptyDirError)
      else case load_templates e of
             Inl err \<Rightarrow> (empty_dir s, Some err)
           | Inr (lt, rt, it) \<Rightarrow>
               (case load_records e [] (readdir fs) of
                  Inl err \<Rightarrow> (empty_dir s, Some err)
                | Inr loaded \<Rightarrow> render_site e lt rt it loaded (empty_dir s)))"
proof -
  have t: "load_templates (e\<lparr>recipesDir_entries := Some fs\<rparr>) = load_templates e"
    by (simp add: load_templates_def split: option.splits)
  have r: "read_all_recipes (e\<lparr>recipesDir_entries := Some fs\<rparr>) = load_records e [] (readdir fs)"
    by (simp add: read_all_recipes_def load_records_other_listing)
  show ?thesis
    unfolding try_body_def t r render_site_other_listing by (simp add: Let_def)
qed

lemma generateSite_listing_order:
  assumes "mset fs2 = mset fs1"
  shows "generateSite (e\<lparr>recipesDir_entries := Some fs2\<rparr>) s =
         generateSite (e\<lparr>recipesDir_entries := Some fs1\<rparr>) s"
  unfolding generateSite_def try_body_other_listing readdir_permuted[OF assms] ..

section \<open>The claim about rebuilding\<close>

text \<open>
  C8. Whatever the order in which the filesystem enumerates the data directory, the
  build is the same: the names are sorted before they are read. So a second build over
  the same data files, templates and assets, the data directory enumerated in any order,
  leaves the output directory with the files and subdirectories the first build left,
  and exits with the same status; templates are functions of their context. A second
  build in an unchanged world does so too when the data directory cannot be read.
\<close>

theorem rebuild_gives_identical_output:
  assumes "mset fs2 = mset fs1"
  shows "generateSite (e\<lparr>recipesDir_entries := Some fs2\<rparr>) s0 =
           generateSite (e\<lparr>recipesDir_entries := Some fs1\<rparr>) s0 \<and>
         same_output
           (fst (generateSite (e\<lparr>recipesDir_entries := Some fs2\<rparr>)
              (fst (generateSite (e\<lparr>recipesDir_entries := Some fs1\<rparr>) s0))))
           (fst (generateSite (e\<lparr>recipesDir_entries := Some fs1\<rparr>) s0)) \<and>
         snd (generateSite (e\<lparr>recipesDir_entries := Some fs2\<rparr>)
              (fst (generateSite (e\<lparr>recipesDir_entries := Some fs1\<rparr>) s0))) =
           snd (generateSite (e\<lparr>recipesDir_entries := Some fs1\<rparr>) s0) \<and>
         same_output (fst (generateSite e (fst (generateSite e s0)))) (fst (generateSite e s0)) \<and>
         snd (generateSite e (fst (generateSite e s0))) = snd (generateSite e s0)"
proof -
  let ?e1 = "e\<lparr>recipesDir_entries := Some fs1\<rparr>" and ?e2 = "e\<lparr>recipesDir_entries := Some fs2\<rparr>"
  have same: "generateSite ?e2 s = generateSite ?e1 s" for s
    by (rule generateSite_listing_order[OF assms])
  from generateSite_again[of ?e1 s0] generateSite_again[of e s0] same
  show ?thesis by simp
qed

theorem rebuild_gives_identical_output_witness:
  "mset [''y.jsonld'', ''x.jsonld''] = mset [''x.jsonld'', ''y.jsonld''] \<and>
   generateSite (twins_env [''y.jsonld'', ''x.jsonld'']) empty_site =
     generateSite (twins_env [''x.jsonld'', ''y.jsonld'']) empty_site \<and>
   snd (generateSite (twins_env [''x.jsonld'', ''y.jsonld'']) empty_site) = 0 \<and>
   files (fst (generateSite (twins_env [''y.jsonld'', ''x.jsonld'']) empty_site)) ''index.html'' =
     Some (index_title @ ''|welcome|x;y;'')"
proof -
  have m: "mset [''y.jsonld'', ''x.jsonld''] = mset [''x.jsonld'', ''y.jsonld'']" by simp
  from rebuild_gives_identical_output[OF m, of twins_base empty_site]
  have same: "generateSite (twins_env [''y.jsonld'', ''x.jsonld'']) empty_site =
              generateSite (twins_env [''x.jsonld'', ''y.jsonld'']) empty_site"
    by (simp add: twins_env_def)
  have z: "snd (generateSite (twins_env [''x.jsonld'', ''y.jsonld'']) empty_site) = 0"
    by (simp add: run_defs sample_defs)
  have f: "files (fst (generateSite (twins_env [''x.jsonld'', ''y.jsonld'']) empty_site)) ''index.html'' =
             Some (index_title @ ''|welcome|x;y;'')"
    by (simp add: run_defs sample_defs)
  from m same z f show ?thesis by simp
qed

section \<open>The page files of the records\<close>











end
